theory Spec2Isabelle
  imports Complex_Main "HOL-Library.AList"
begin

section \<open>Python values\<close>

text \<open>
  Node attribute maps are Python dictionaries from strings to arbitrary values
  (\<open>Dict[str, Any]\<close>). The values that the service stores or compares are \<open>None\<close>,
  booleans, integers and strings.
\<close>

datatype pyval = PNone | PBool bool | PInt int | PStr string

type_synonym pydict = "string \<rightharpoonup> pyval"

text \<open>Python truthiness, as used by \<open>x or ""\<close>.\<close>

fun truthy :: "pyval \<Rightarrow> bool" where
  "truthy PNone = False"
| "truthy (PBool b) = b"
| "truthy (PInt i) = (i \<noteq> 0)"
| "truthy (PStr s) = (s \<noteq> [])"

text \<open>\<open>d.get(k)\<close> yields \<open>None\<close> for a missing key, \<open>d.get(k, v)\<close> yields \<open>v\<close>.\<close>

definition dict_get :: "pydict \<Rightarrow> string \<Rightarrow> pyval" where
  "dict_get d k = (case d k of None \<Rightarrow> PNone | Some v \<Rightarrow> v)"

definition dict_get_default :: "pydict \<Rightarrow> string \<Rightarrow> pyval \<Rightarrow> pyval" where
  "dict_get_default d k v = (case d k of None \<Rightarrow> v | Some x \<Rightarrow> x)"

text \<open>\<open>str(v)\<close>, as an f-string formats a value.\<close>

definition digit_char :: "nat \<Rightarrow> char" where
  "digit_char n = char_of (48 + n)"

fun nat_str :: "nat \<Rightarrow> string" where
  "nat_str n = (if n < 10 then [digit_char n] else nat_str (n div 10) @ [digit_char (n mod 10)])"

declare nat_str.simps [simp del]

definition int_str :: "int \<Rightarrow> string" where
  "int_str i = (if i < 0 then CHR ''-'' # nat_str (nat (- i)) else nat_str (nat i))"

fun py_str :: "pyval \<Rightarrow> string" where
  "py_str PNone = ''None''"
| "py_str (PBool b) = (if b then ''True'' else ''False'')"
| "py_str (PInt i) = int_str i"
| "py_str (PStr s) = s"

text \<open>A single quote character, and an identifier between single quotes.\<close>

definition sq :: string where
  "sq = [char_of (39::nat)]"

definition quoted :: "string \<Rightarrow> string" where
  "quoted s = sq @ s @ sq"

section \<open>Errors\<close>

text \<open>
  The exceptions of \<open>base_service\<close> that the service raises, and the two built-in
  exceptions that reading a malformed property node can raise.
\<close>

datatype error =
    NodeNotFoundError string
  | ValidationError string
  | InvalidOperationError string
  | ValueError string
  | AttributeError string

section \<open>The graph store\<close>

text \<open>
  Modelled from the spec: the class \<open>GraphDB\<close> (module \<open>graph_db\<close>) is not among the
  source files. The spec describes it as a generic directed labelled graph: nodes keyed
  by a unique string identifier holding an attribute map, edges keyed by
  (source, target) holding a label and a numeric weight. Both tables are kept in
  insertion order, which is the order in which \<open>get_all_nodes\<close> and \<open>get_all_edges\<close>
  enumerate them; writing an existing key replaces the entry in place.
\<close>

record edge_data =
  elabel :: string
  eweight :: real

record graph_db =
  gnodes :: "(string \<times> pydict) list"
  gedges :: "((string \<times> string) \<times> edge_data) list"

definition get_node :: "graph_db \<Rightarrow> string \<Rightarrow> pydict option" where
  "get_node g n = map_of (gnodes g) n"

definition node_exists :: "graph_db \<Rightarrow> string \<Rightarrow> bool" where
  "node_exists g n = (get_node g n \<noteq> None)"

definition add_node :: "graph_db \<Rightarrow> string \<Rightarrow> pydict \<Rightarrow> graph_db" where
  "add_node g n d = g\<lparr>gnodes := AList.update n d (gnodes g)\<rparr>"

definition get_all_nodes :: "graph_db \<Rightarrow> string list" where
  "get_all_nodes g = map fst (gnodes g)"

definition add_edge :: "graph_db \<Rightarrow> string \<Rightarrow> string \<Rightarrow> string \<Rightarrow> real \<Rightarrow> graph_db" where
  "add_edge g s t l w = g\<lparr>gedges := AList.update (s, t) \<lparr>elabel = l, eweight = w\<rparr> (gedges g)\<rparr>"

definition get_edge :: "graph_db \<Rightarrow> string \<Rightarrow> string \<Rightarrow> edge_data option" where
  "get_edge g s t = map_of (gedges g) (s, t)"

definition get_all_edges :: "graph_db \<Rightarrow> (string \<times> string \<times> real) list" where
  "get_all_edges g = map (\<lambda>((s, t), e). (s, t, eweight e)) (gedges g)"

text \<open>
  Modelled from the spec: the weight \<open>add_edge\<close> gives an edge when the caller passes
  none. The service never reads a weight.
\<close>

definition default_weight :: real where
  "default_weight = 1"

definition empty_graph :: graph_db where
  "empty_graph = \<lparr>gnodes = [], gedges = []\<rparr>"

section \<open>Entity model\<close>

text \<open>
  Modelled from the spec: the module \<open>ontology_models\<close> is not among the source files.
  The records below carry the fields the spec lists for Class, Property and Instance and
  that the service reads or writes. Python does not check field types, so a field read
  back from a node's attribute map is a \<open>pyval\<close>.
\<close>

record ontology_class =
  cls_id :: string
  cls_label :: pyval
  cls_description :: pyval
  parent_classes :: "string list"
  equivalent_classes :: "string list"
  disjoint_classes :: "string list"
  is_abstract :: pyval
  cls_properties :: pydict

datatype property_type = OBJECT | DATA | ANNOTATION

text \<open>
  Modelled from the spec: the value strings of the enumeration \<open>PropertyType\<close>. The
  service's default \<open>'object'\<close> is in the source; the other two follow the same pattern.
\<close>

fun property_type_value :: "property_type \<Rightarrow> string" where
  "property_type_value OBJECT = ''object''"
| "property_type_value DATA = ''data''"
| "property_type_value ANNOTATION = ''annotation''"

text \<open>\<open>PropertyType(v)\<close>: the member with value \<open>v\<close>, or a \<open>ValueError\<close>.\<close>

definition PropertyType :: "pyval \<Rightarrow> error + property_type" where
  "PropertyType v =
     (if v = PStr ''object'' then Inr OBJECT
      else if v = PStr ''data'' then Inr DATA
      else if v = PStr ''annotation'' then Inr ANNOTATION
      else Inl (ValueError (py_str v)))"

datatype property_characteristic =
  FUNCTIONAL | INVERSE_FUNCTIONAL | TRANSITIVE | SYMMETRIC | ASYMMETRIC | REFLEXIVE | IRREFLEXIVE

text \<open>Modelled from the spec: the value strings of \<open>PropertyCharacteristic\<close>.\<close>

fun characteristic_value :: "property_characteristic \<Rightarrow> string" where
  "characteristic_value FUNCTIONAL = ''functional''"
| "characteristic_value INVERSE_FUNCTIONAL = ''inverse_functional''"
| "characteristic_value TRANSITIVE = ''transitive''"
| "characteristic_value SYMMETRIC = ''symmetric''"
| "characteristic_value ASYMMETRIC = ''asymmetric''"
| "characteristic_value REFLEXIVE = ''reflexive''"
| "characteristic_value IRREFLEXIVE = ''irreflexive''"

definition all_characteristics :: "property_characteristic list" where
  "all_characteristics =
     [FUNCTIONAL, INVERSE_FUNCTIONAL, TRANSITIVE, SYMMETRIC, ASYMMETRIC, REFLEXIVE, IRREFLEXIVE]"

text \<open>\<open>PropertyCharacteristic(s)\<close>; \<open>None\<close> stands for the \<open>ValueError\<close> the caller swallows.\<close>

definition PropertyCharacteristic :: "string \<Rightarrow> property_characteristic option" where
  "PropertyCharacteristic s = find (\<lambda>c. characteristic_value c = s) all_characteristics"

record ontology_property =
  prop_id :: string
  prop_label :: pyval
  prop_type :: property_type
  prop_description :: pyval
  prop_domain :: "string list"
  prop_range :: "string list"
  inverse_of :: pyval
  characteristics :: "property_characteristic list"
  annotations :: pydict

record ontology_instance =
  inst_id :: string
  inst_label :: pyval
  class_ids :: "string list"
  inst_properties :: pydict

section \<open>The ontology service\<close>

definition CLASS_TYPE :: string where "CLASS_TYPE = ''owl:Class''"
definition PROPERTY_TYPE :: string where "PROPERTY_TYPE = ''owl:Property''"
definition INSTANCE_TYPE :: string where "INSTANCE_TYPE = ''owl:Individual''"
definition SUBCLASS_RELATION :: string where "SUBCLASS_RELATION = ''rdfs:subClassOf''"
definition TYPE_RELATION :: string where "TYPE_RELATION = ''rdf:type''"
definition DOMAIN_RELATION :: string where "DOMAIN_RELATION = ''rdfs:domain''"
definition RANGE_RELATION :: string where "RANGE_RELATION = ''rdfs:range''"
definition owl_Thing :: string where "owl_Thing = ''owl:Thing''"

lemmas service_consts =
  CLASS_TYPE_def PROPERTY_TYPE_def INSTANCE_TYPE_def SUBCLASS_RELATION_def
  TYPE_RELATION_def DOMAIN_RELATION_def RANGE_RELATION_def owl_Thing_def

text \<open>\<open>_get_node_data\<close>: the node's attribute map, or the empty dictionary.\<close>

definition get_node_data :: "graph_db \<Rightarrow> string \<Rightarrow> pydict" where
  "get_node_data g n = (case get_node g n of Some d \<Rightarrow> d | None \<Rightarrow> Map.empty)"

text \<open>\<open>_initialize_ontology\<close>: create the root class unless it exists.\<close>

definition initialize_ontology :: "graph_db \<Rightarrow> graph_db" where
  "initialize_ontology g =
     (if \<not> node_exists g owl_Thing
      then add_node g owl_Thing
             [''label'' \<mapsto> PStr ''Thing'', ''node_type'' \<mapsto> PStr CLASS_TYPE,
              ''description'' \<mapsto> PStr ''Root of all classes'']
      else g)"

text \<open>The service's constructor on a fresh store.\<close>

definition new_service :: graph_db where
  "new_service = initialize_ontology empty_graph"

subsection \<open>Class operations\<close>

text \<open>
  The test \<open>edge_data and edge_data.get('label') == l\<close> on the result of
  \<open>get_edge(s, t)\<close>.
\<close>

definition edge_has_label :: "graph_db \<Rightarrow> string \<Rightarrow> string \<Rightarrow> string \<Rightarrow> bool" where
  "edge_has_label g s t l = (case get_edge g s t of None \<Rightarrow> False | Some e \<Rightarrow> elabel e = l)"

definition create_class :: "graph_db \<Rightarrow> ontology_class \<Rightarrow> error + (graph_db \<times> ontology_class)" where
  "create_class g class_obj =
     (if node_exists g (cls_id class_obj)
      then Inl (ValidationError (''Class '' @ quoted (cls_id class_obj) @ '' already exists''))
      else case find (\<lambda>parent_id. \<not> node_exists g parent_id) (parent_classes class_obj) of
        Some parent_id \<Rightarrow>
          Inl (NodeNotFoundError (''Parent class '' @ quoted parent_id @ '' not found''))
      | None \<Rightarrow>
         (let node_data =
                [''label'' \<mapsto> cls_label class_obj,
                 ''node_type'' \<mapsto> PStr CLASS_TYPE,
                 ''description'' \<mapsto>
                    (if truthy (cls_description class_obj) then cls_description class_obj
                     else PStr ''''),
                 ''is_abstract'' \<mapsto> is_abstract class_obj] ++ cls_properties class_obj;
              g1 = add_node g (cls_id class_obj) node_data;
              class_obj1 =
                (if parent_classes class_obj = []
                 then class_obj\<lparr>parent_classes := [owl_Thing]\<rparr> else class_obj);
              g2 = fold (\<lambda>parent_id h. add_edge h (cls_id class_obj) parent_id SUBCLASS_RELATION 1)
                     (parent_classes class_obj1) g1;
              g3 = fold (\<lambda>equiv_id h.
                           if node_exists h equiv_id
                           then add_edge h (cls_id class_obj) equiv_id ''owl:equivalentClass''
                                  default_weight
                           else h)
                     (equivalent_classes class_obj1) g2;
              g4 = fold (\<lambda>disj_id h.
                           if node_exists h disj_id
                           then add_edge h (cls_id class_obj) disj_id ''owl:disjointWith''
                                  default_weight
                           else h)
                     (disjoint_classes class_obj1) g3
          in Inr (g4, class_obj1)))"

definition get_class :: "graph_db \<Rightarrow> string \<Rightarrow> error + ontology_class" where
  "get_class g class_id =
     (if \<not> node_exists g class_id
      then Inl (NodeNotFoundError (''Class '' @ quoted class_id @ '' not found''))
      else
        (let node_data = get_node_data g class_id in
         if dict_get node_data ''node_type'' \<noteq> PStr CLASS_TYPE
         then Inl (ValidationError (''Node '' @ quoted class_id @ '' is not a class''))
         else Inr \<lparr>cls_id = class_id,
                   cls_label = dict_get_default node_data ''label'' (PStr class_id),
                   cls_description = dict_get node_data ''description'',
                   parent_classes =
                     map (\<lambda>(from_node, to_node, w). to_node)
                       (filter (\<lambda>(from_node, to_node, w).
                                  from_node = class_id
                                  \<and> edge_has_label g from_node to_node SUBCLASS_RELATION)
                          (get_all_edges g)),
                   equivalent_classes = [],
                   disjoint_classes = [],
                   is_abstract = dict_get_default node_data ''is_abstract'' (PBool False),
                   cls_properties = Map.empty\<rparr>))"

text \<open>
  \<open>get_all_classes\<close>: every node tagged as a class for which \<open>get_class\<close> succeeds;
  a failure is swallowed and the node skipped.
\<close>

definition get_all_classes :: "graph_db \<Rightarrow> ontology_class list" where
  "get_all_classes g =
     concat (map (\<lambda>node_id.
                    if dict_get (get_node_data g node_id) ''node_type'' = PStr CLASS_TYPE
                    then (case get_class g node_id of Inr c \<Rightarrow> [c] | Inl e \<Rightarrow> [])
                    else [])
              (get_all_nodes g))"

text \<open>
  \<open>get_superclasses\<close>. The loop over all edges appends, for every \<open>subClassOf\<close> edge
  leaving \<open>class_id\<close> whose target reads back as a class, that class and (unless
  \<open>direct_only\<close>) the result of the recursive call on it; a target for which
  \<open>get_class\<close> raises is skipped. The recursion has no guard against cycles, so the
  model takes the recursion depth still allowed as its first argument and returns
  \<open>None\<close> when it is exhausted.
\<close>

definition superclasses_loop ::
  "(string \<Rightarrow> ontology_class list option) \<Rightarrow> graph_db \<Rightarrow> string \<Rightarrow> bool
     \<Rightarrow> ontology_class list option" where
  "superclasses_loop rec g class_id direct_only =
     fold (\<lambda>(from_node, to_node, w) acc.
             case acc of None \<Rightarrow> None
             | Some superclasses \<Rightarrow>
                 if from_node = class_id \<and> edge_has_label g from_node to_node SUBCLASS_RELATION
                 then (case get_class g to_node of
                         Inl e \<Rightarrow> Some superclasses
                       | Inr c \<Rightarrow>
                           if direct_only then Some (superclasses @ [c])
                           else (case rec to_node of
                                   None \<Rightarrow> None
                                 | Some indirect \<Rightarrow> Some (superclasses @ [c] @ indirect)))
                 else Some superclasses)
       (get_all_edges g) (Some [])"

primrec get_superclasses :: "nat \<Rightarrow> graph_db \<Rightarrow> string \<Rightarrow> bool \<Rightarrow> ontology_class list option" where
  "get_superclasses 0 g class_id direct_only =
     superclasses_loop (\<lambda>to_node. None) g class_id direct_only"
| "get_superclasses (Suc n) g class_id direct_only =
     superclasses_loop (\<lambda>to_node. get_superclasses n g to_node False) g class_id direct_only"

text \<open>The call \<open>get_superclasses(class_id, direct_only=True)\<close>, which never recurses.\<close>

definition direct_superclasses :: "graph_db \<Rightarrow> string \<Rightarrow> ontology_class list" where
  "direct_superclasses g class_id =
     (case get_superclasses 0 g class_id True of Some cs \<Rightarrow> cs | None \<Rightarrow> [])"

subsection \<open>Direct superclasses and the superclass relation\<close>

lemma fold_loop_concat:
  "fold (\<lambda>x acc. case acc of None \<Rightarrow> None | Some ys \<Rightarrow> Some (ys @ h x)) xs (Some acc)
     = Some (acc @ concat (map h xs))"
  by (induction xs arbitrary: acc) simp_all

text \<open>What one edge contributes to the result of the loop when \<open>direct_only\<close> holds.\<close>

definition direct_hit :: "graph_db \<Rightarrow> string \<Rightarrow> (string \<times> string \<times> real) \<Rightarrow> ontology_class list" where
  "direct_hit g class_id = (\<lambda>(from_node, to_node, w).
      if from_node = class_id \<and> edge_has_label g from_node to_node SUBCLASS_RELATION
      then (case get_class g to_node of Inl e \<Rightarrow> [] | Inr c \<Rightarrow> [c]) else [])"

lemma superclasses_loop_direct:
  "superclasses_loop rec g class_id True = Some (concat (map (direct_hit g class_id) (get_all_edges g)))"
proof -
  have "(\<lambda>(from_node, to_node, w) acc.
             case acc of None \<Rightarrow> None
             | Some superclasses \<Rightarrow>
                 if from_node = class_id \<and> edge_has_label g from_node to_node SUBCLASS_RELATION
                 then (case get_class g to_node of
                         Inl e \<Rightarrow> Some superclasses
                       | Inr c \<Rightarrow>
                           if True then Some (superclasses @ [c])
                           else (case rec to_node of
                                   None \<Rightarrow> None
                                 | Some indirect \<Rightarrow> Some (superclasses @ [c] @ indirect)))
                 else Some superclasses)
     = (\<lambda>x acc. case acc of None \<Rightarrow> None | Some ys \<Rightarrow> Some (ys @ direct_hit g class_id x))"
    by (auto simp: fun_eq_iff direct_hit_def split: option.splits sum.splits)
  then show ?thesis
    unfolding superclasses_loop_def by (simp add: fold_loop_concat)
qed

lemma direct_superclasses_eq:
  "direct_superclasses g class_id = concat (map (direct_hit g class_id) (get_all_edges g))"
  by (simp add: direct_superclasses_def superclasses_loop_direct)

lemma get_class_id: "get_class g a = Inr c \<Longrightarrow> cls_id c = a"
  by (auto simp: get_class_def Let_def split: if_splits)

text \<open>
  The edges the traversals follow: a \<open>subClassOf\<close> edge whose target reads back as a
  class. \<open>subclass_rel\<close> is the relation of all \<open>subClassOf\<close> edges of the store.
\<close>

definition superclass_rel :: "graph_db \<Rightarrow> (string \<times> string) set" where
  "superclass_rel g =
     {(c, p). edge_has_label g c p SUBCLASS_RELATION \<and> (\<exists>cl. get_class g p = Inr cl)}"

definition subclass_rel :: "graph_db \<Rightarrow> (string \<times> string) set" where
  "subclass_rel g = {(c, p). edge_has_label g c p SUBCLASS_RELATION}"

lemma edge_has_label_key: "edge_has_label g s t l \<Longrightarrow> (s, t) \<in> fst ` set (gedges g)"
  by (auto simp: edge_has_label_def get_edge_def split: option.splits dest: map_of_SomeD intro: rev_image_eqI)

lemma edge_has_label_listed:
  "edge_has_label g s t l \<Longrightarrow> \<exists>w. (s, t, w) \<in> set (get_all_edges g)"
proof -
  assume "edge_has_label g s t l"
  then have "(s, t) \<in> fst ` set (gedges g)" by (rule edge_has_label_key)
  then obtain x where "x \<in> set (gedges g)" "fst x = (s, t)" by auto
  then have "((s, t), snd x) \<in> set (gedges g)" by (metis prod.collapse)
  then obtain e where "((s, t), e) \<in> set (gedges g)" ..
  then have "(s, t, eweight e) \<in> set (get_all_edges g)"
    unfolding get_all_edges_def set_map
    by (intro image_eqI[where x = "((s, t), e)"]) simp_all
  then show ?thesis ..
qed

lemma direct_hit_mem:
  "cl \<in> set (direct_hit g c (f, t, w))
     \<longleftrightarrow> f = c \<and> edge_has_label g c t SUBCLASS_RELATION \<and> get_class g t = Inr cl"
proof (cases "f = c \<and> edge_has_label g f t SUBCLASS_RELATION")
  case False
  then have "direct_hit g c (f, t, w) = []" by (auto simp: direct_hit_def)
  with False show ?thesis by auto
next
  case True
  then have fc: "f = c" and e: "edge_has_label g c t SUBCLASS_RELATION" by auto
  show ?thesis
  proof (cases "get_class g t")
    case (Inl err)
    with fc e have "direct_hit g c (f, t, w) = []" by (simp add: direct_hit_def)
    with Inl show ?thesis by simp
  next
    case (Inr c')
    with fc e have "direct_hit g c (f, t, w) = [c']" by (simp add: direct_hit_def)
    with fc e Inr show ?thesis by auto
  qed
qed

lemma set_direct_superclasses:
  "set (direct_superclasses g c) = {cl. \<exists>p. (c, p) \<in> superclass_rel g \<and> get_class g p = Inr cl}"
proof (intro equalityI subsetI)
  fix cl assume "cl \<in> set (direct_superclasses g c)"
  then obtain x where "x \<in> set (get_all_edges g)" and x: "cl \<in> set (direct_hit g c x)"
    unfolding direct_superclasses_eq by auto
  obtain f t w where "x = (f, t, w)" by (cases x) auto
  with x have "edge_has_label g c t SUBCLASS_RELATION \<and> get_class g t = Inr cl"
    by (simp add: direct_hit_mem)
  then show "cl \<in> {cl. \<exists>p. (c, p) \<in> superclass_rel g \<and> get_class g p = Inr cl}"
    by (auto simp: superclass_rel_def)
next
  fix cl assume "cl \<in> {cl. \<exists>p. (c, p) \<in> superclass_rel g \<and> get_class g p = Inr cl}"
  then obtain p where e: "edge_has_label g c p SUBCLASS_RELATION" and cl: "get_class g p = Inr cl"
    by (auto simp: superclass_rel_def)
  from edge_has_label_listed[OF e] obtain w where w: "(c, p, w) \<in> set (get_all_edges g)" ..
  have "cl \<in> set (direct_hit g c (c, p, w))" using e cl by (simp add: direct_hit_mem)
  with w show "cl \<in> set (direct_superclasses g c)"
    unfolding direct_superclasses_eq by auto
qed

lemma ids_direct_superclasses:
  "cls_id ` set (direct_superclasses g c) = {p. (c, p) \<in> superclass_rel g}"
  by (auto simp: set_direct_superclasses superclass_rel_def get_class_id intro!: rev_image_eqI)

lemma in_superclass_relD:
  "(c, p) \<in> superclass_rel g \<Longrightarrow> \<exists>cl\<in>set (direct_superclasses g c). cls_id cl = p"
  by (fastforce simp: set_direct_superclasses superclass_rel_def dest: get_class_id)

lemma in_superclass_relI:
  "cl \<in> set (direct_superclasses g c) \<Longrightarrow> (c, cls_id cl) \<in> superclass_rel g"
  by (auto simp: set_direct_superclasses get_class_id)

lemma direct_superclasses_source:
  "p \<in> set (direct_superclasses g c) \<Longrightarrow> c \<in> fst ` fst ` set (gedges g)"
  by (auto simp: set_direct_superclasses superclass_rel_def dest!: edge_has_label_key intro: rev_image_eqI)

subsection \<open>Cycle detection\<close>

text \<open>
  The local function \<open>has_cycle\<close> of \<open>check_consistency\<close>. The set \<open>visited\<close> is
  extended by \<open>class_id\<close> and each recursive call receives a copy, so a call sees exactly
  the classes on the path that led to it.
\<close>

function has_cycle :: "graph_db \<Rightarrow> string \<Rightarrow> string set \<Rightarrow> bool" where
  "has_cycle g class_id visited =
     (if class_id \<in> visited then True
      else list_ex (\<lambda>parent. has_cycle g (cls_id parent) (insert class_id visited))
             (direct_superclasses g class_id))"
  by pat_completeness auto
termination
proof (relation "measure (\<lambda>(g, c, V). card (fst ` fst ` set (gedges g) - V))")
  show "wf (measure (\<lambda>(g, c, V). card (fst ` fst ` set (gedges g) - V)))" by simp
next
  fix g :: graph_db and class_id :: string and visited :: "string set" and x
  assume nv: "class_id \<notin> visited" and x: "x \<in> set (direct_superclasses g class_id)"
  let ?S = "fst ` fst ` set (gedges g)"
  have "class_id \<in> ?S" using direct_superclasses_source[OF x] .
  then have "?S - insert class_id visited \<subset> ?S - visited" using nv by auto
  then have "card (?S - insert class_id visited) < card (?S - visited)"
    by (intro psubset_card_mono) auto
  then show "((g, cls_id x, insert class_id visited), (g, class_id, visited))
       \<in> measure (\<lambda>(g, c, V). card (fst ` fst ` set (gedges g) - V))" by simp
qed

declare has_cycle.simps [simp del]

lemma has_cycle_iff:
  "has_cycle g c V \<longleftrightarrow>
     (\<exists>d. (c, d) \<in> (superclass_rel g)\<^sup>* \<and> (d \<in> V \<or> (d, d) \<in> (superclass_rel g)\<^sup>+))"
proof (induction g c V rule: has_cycle.induct)
  case (1 g c V)
  let ?R = "superclass_rel g"
  show ?case
  proof (cases "c \<in> V")
    case True
    then show ?thesis by (subst has_cycle.simps) auto
  next
    case False
    have step: "has_cycle g c V \<longleftrightarrow> (\<exists>p. (c, p) \<in> ?R \<and> has_cycle g p (insert c V))"
    proof -
      have "has_cycle g c V \<longleftrightarrow>
          (\<exists>cl\<in>set (direct_superclasses g c). has_cycle g (cls_id cl) (insert c V))"
        using False by (subst has_cycle.simps) (simp add: list_ex_iff)
      also have "\<dots> \<longleftrightarrow> (\<exists>p. (c, p) \<in> ?R \<and> has_cycle g p (insert c V))"
        using in_superclass_relD[of c _ g] in_superclass_relI[of _ g c] by blast
      finally show ?thesis .
    qed
    have IH: "\<And>p. (c, p) \<in> ?R \<Longrightarrow> has_cycle g p (insert c V) \<longleftrightarrow>
        (\<exists>d. (p, d) \<in> ?R\<^sup>* \<and> (d \<in> insert c V \<or> (d, d) \<in> ?R\<^sup>+))"
    proof -
      fix p assume "(c, p) \<in> ?R"
      then obtain cl where "cl \<in> set (direct_superclasses g c)" "cls_id cl = p"
        using in_superclass_relD by blast
      with "1.IH"[OF False, of cl] show "has_cycle g p (insert c V) \<longleftrightarrow>
        (\<exists>d. (p, d) \<in> ?R\<^sup>* \<and> (d \<in> insert c V \<or> (d, d) \<in> ?R\<^sup>+))" by simp
    qed
    show ?thesis
    proof
      assume "has_cycle g c V"
      then obtain p where cp: "(c, p) \<in> ?R" and hp: "has_cycle g p (insert c V)"
        using step by auto
      from IH[OF cp] hp obtain d where pd: "(p, d) \<in> ?R\<^sup>*"
        and d: "d \<in> insert c V \<or> (d, d) \<in> ?R\<^sup>+" by auto
      show "\<exists>d. (c, d) \<in> ?R\<^sup>* \<and> (d \<in> V \<or> (d, d) \<in> ?R\<^sup>+)"
      proof (cases "d = c")
        case True
        with cp pd have "(c, c) \<in> ?R\<^sup>+" by (auto intro: rtrancl_into_trancl2)
        then show ?thesis by blast
      next
        case False
        with d have "d \<in> V \<or> (d, d) \<in> ?R\<^sup>+" by auto
        moreover from cp pd have "(c, d) \<in> ?R\<^sup>*" by (auto intro: converse_rtrancl_into_rtrancl)
        ultimately show ?thesis by blast
      qed
    next
      assume "\<exists>d. (c, d) \<in> ?R\<^sup>* \<and> (d \<in> V \<or> (d, d) \<in> ?R\<^sup>+)"
      then obtain d where cd: "(c, d) \<in> ?R\<^sup>*" and d: "d \<in> V \<or> (d, d) \<in> ?R\<^sup>+" by auto
      have "\<exists>p. (c, p) \<in> ?R \<and> (\<exists>e. (p, e) \<in> ?R\<^sup>* \<and> (e \<in> insert c V \<or> (e, e) \<in> ?R\<^sup>+))"
      proof (cases "d = c")
        case True
        with d False have "(c, c) \<in> ?R\<^sup>+" by auto
        then obtain p where "(c, p) \<in> ?R" "(p, c) \<in> ?R\<^sup>*"
          by (auto dest: tranclD)
        then show ?thesis by blast
      next
        case False
        with cd obtain p where "(c, p) \<in> ?R" "(p, d) \<in> ?R\<^sup>*"
          by (auto elim: converse_rtranclE)
        with d show ?thesis by blast
      qed
      then show "has_cycle g c V" using step IH by blast
    qed
  qed
qed

subsection \<open>Consistency checking\<close>

text \<open>
  \<open>ReasoningResult\<close>. Its field \<open>reasoning_time\<close> is a wall-clock duration and is left
  out.
\<close>

record reasoning_result =
  consistent :: bool
  rr_errors :: "string list"
  rr_warnings :: "string list"

definition circular_message :: "string \<Rightarrow> string" where
  "circular_message class_id = ''Circular inheritance detected involving '' @ quoted class_id"

definition check_consistency :: "graph_db \<Rightarrow> reasoning_result" where
  "check_consistency g =
     fold (\<lambda>class_obj result.
             if has_cycle g (cls_id class_obj) {}
             then result\<lparr>consistent := False,
                         rr_errors := rr_errors result @ [circular_message (cls_id class_obj)]\<rparr>
             else result)
       (get_all_classes g)
       \<lparr>consistent = True, rr_errors = [], rr_warnings = []\<rparr>"

lemma check_fold_consistent:
  "consistent (fold (\<lambda>class_obj result.
             if hit class_obj
             then result\<lparr>consistent := False, rr_errors := rr_errors result @ [msg class_obj]\<rparr>
             else result) cs r)
     = (consistent r \<and> (\<forall>c\<in>set cs. \<not> hit c))"
  by (induction cs arbitrary: r) auto

lemma check_fold_errors:
  "rr_errors (fold (\<lambda>class_obj result.
             if hit class_obj
             then result\<lparr>consistent := False, rr_errors := rr_errors result @ [msg class_obj]\<rparr>
             else result) cs r)
     = rr_errors r @ map msg (filter hit cs)"
  by (induction cs arbitrary: r) auto

lemma check_fold_warnings:
  "rr_warnings (fold (\<lambda>class_obj result.
             if hit class_obj
             then result\<lparr>consistent := False, rr_errors := rr_errors result @ [msg class_obj]\<rparr>
             else result) cs r)
     = rr_warnings r"
  by (induction cs arbitrary: r) auto

lemma consistent_check_consistency:
  "consistent (check_consistency g) \<longleftrightarrow> (\<forall>c\<in>set (get_all_classes g). \<not> has_cycle g (cls_id c) {})"
  unfolding check_consistency_def by (simp add: check_fold_consistent)

lemma errors_check_consistency:
  "rr_errors (check_consistency g) =
     map (\<lambda>c. circular_message (cls_id c))
       (filter (\<lambda>c. has_cycle g (cls_id c) {}) (get_all_classes g))"
  unfolding check_consistency_def by (simp add: check_fold_errors)

lemma warnings_check_consistency: "rr_warnings (check_consistency g) = []"
  unfolding check_consistency_def by (simp add: check_fold_warnings)

lemma has_cycle_empty_iff:
  "has_cycle g c {} \<longleftrightarrow> (\<exists>d. (c, d) \<in> (superclass_rel g)\<^sup>* \<and> (d, d) \<in> (superclass_rel g)\<^sup>+)"
  by (simp add: has_cycle_iff)




lemma get_class_node_exists: "get_class g n = Inr c \<Longrightarrow> node_exists g n"
  by (auto simp: get_class_def Let_def split: if_splits)


lemma node_exists_listed: "node_exists g n \<Longrightarrow> n \<in> set (get_all_nodes g)"
proof -
  assume "node_exists g n"
  then obtain d where "map_of (gnodes g) n = Some d"
    by (auto simp: node_exists_def get_node_def)
  then have "(n, d) \<in> set (gnodes g)" by (rule map_of_SomeD)
  then show ?thesis unfolding get_all_nodes_def set_map by (rule image_eqI[rotated]) simp
qed


lemma superclass_rel_subset: "superclass_rel g \<subseteq> subclass_rel g"
  by (auto simp: superclass_rel_def subclass_rel_def)



text \<open>
  C3. If the \<open>subClassOf\<close> relation of the store is acyclic, \<open>check_consistency\<close> returns
  \<open>consistent = True\<close> with no errors, whatever the shape of the hierarchy: a class
  reached again through a second parent is not on the path of that branch.
\<close>

theorem check_consistency_acyclic:
  assumes "acyclic (subclass_rel g)"
  shows "check_consistency g = \<lparr>consistent = True, rr_errors = [], rr_warnings = []\<rparr>"
proof -
  have ac: "acyclic (superclass_rel g)"
    using assms superclass_rel_subset by (rule acyclic_subset)
  have no: "\<not> has_cycle g c {}" for c
    using ac unfolding has_cycle_empty_iff acyclic_def by blast
  have "consistent (check_consistency g)"
    unfolding consistent_check_consistency using no by blast
  moreover have "rr_errors (check_consistency g) = []"
    unfolding errors_check_consistency using no by simp
  moreover have "rr_warnings (check_consistency g) = []" by (rule warnings_check_consistency)
  ultimately show ?thesis by simp
qed

subsection \<open>Example stores\<close>

text \<open>The attribute map \<open>create_class\<close> writes for a class with the given label.\<close>

definition class_node :: "string \<Rightarrow> pydict" where
  "class_node l =
     [''label'' \<mapsto> PStr l, ''node_type'' \<mapsto> PStr CLASS_TYPE,
      ''description'' \<mapsto> PStr [], ''is_abstract'' \<mapsto> PBool False]"

definition subclass_edge :: edge_data where
  "subclass_edge = \<lparr>elabel = SUBCLASS_RELATION, eweight = 1\<rparr>"


text \<open>A diamond: \<open>D\<close> has the parents \<open>B\<close> and \<open>C\<close>, which both have the parent \<open>A\<close>.\<close>

definition diamond_store :: graph_db where
  "diamond_store =
     \<lparr>gnodes = [(''A'', class_node ''A''), (''B'', class_node ''B''),
                (''C'', class_node ''C''), (''D'', class_node ''D'')],
      gedges = [((''B'', ''A''), subclass_edge), ((''C'', ''A''), subclass_edge),
                ((''D'', ''B''), subclass_edge), ((''D'', ''C''), subclass_edge)]\<rparr>"

lemmas store_defs =
  get_node_def node_exists_def get_node_data_def get_edge_def edge_has_label_def
  get_all_edges_def get_all_nodes_def dict_get_def dict_get_default_def


lemma subclass_rel_diamond:
  "subclass_rel diamond_store = {(''B'', ''A''), (''C'', ''A''), (''D'', ''B''), (''D'', ''C'')}"
  by (auto simp: subclass_rel_def diamond_store_def store_defs subclass_edge_def split: if_splits)

theorem check_consistency_acyclic_witness:
  "acyclic (subclass_rel diamond_store)
   \<and> {(''D'', ''B''), (''D'', ''C''), (''B'', ''A''), (''C'', ''A'')} \<subseteq> subclass_rel diamond_store
   \<and> check_consistency diamond_store = \<lparr>consistent = True, rr_errors = [], rr_warnings = []\<rparr>"
proof -
  have ac: "acyclic (subclass_rel diamond_store)"
  proof (rule acyclicI_order)
    fix a b assume "(a, b) \<in> subclass_rel diamond_store"
    then show "(if b = ''A'' then 0 else if b = ''D'' then 2 else (1::nat))
             < (if a = ''A'' then 0 else if a = ''D'' then 2 else 1)"
      unfolding subclass_rel_diamond by auto
  qed
  from check_consistency_acyclic[OF ac] ac show ?thesis
    by (simp add: subclass_rel_diamond)
qed

subsection \<open>All superclasses\<close>

lemma finite_superclass_rel: "finite (superclass_rel g)"
proof (rule finite_subset)
  show "superclass_rel g \<subseteq> fst ` set (gedges g)"
    by (auto simp: superclass_rel_def dest: edge_has_label_key)
qed simp

lemma finite_fuel_bound:
  assumes "finite S" and "\<forall>p\<in>S. \<exists>n. \<forall>m\<ge>n. P p (m::nat)"
  shows "\<exists>N. \<forall>p\<in>S. \<forall>m\<ge>N. P p m"
  using assms
proof (induction S)
  case empty
  then show ?case by simp
next
  case (insert x F)
  then obtain N where N: "\<forall>p\<in>F. \<forall>m\<ge>N. P p m" by auto
  from insert.prems obtain n where n: "\<forall>m\<ge>n. P x m" by auto
  have "\<forall>p\<in>insert x F. \<forall>m\<ge>max N n. P p m" using N n by auto
  then show ?case ..
qed

text \<open>
  What one edge contributes to the result of the loop when \<open>direct_only\<close> is false and
  the recursive call on a class \<open>p\<close> returns \<open>res p\<close>.
\<close>

definition indirect_hit ::
  "(string \<Rightarrow> ontology_class list) \<Rightarrow> graph_db \<Rightarrow> string \<Rightarrow> (string \<times> string \<times> real)
     \<Rightarrow> ontology_class list" where
  "indirect_hit res g class_id = (\<lambda>(from_node, to_node, w).
      if from_node = class_id \<and> edge_has_label g from_node to_node SUBCLASS_RELATION
      then (case get_class g to_node of Inl e \<Rightarrow> [] | Inr c \<Rightarrow> c # res to_node) else [])"

definition loop_step ::
  "(string \<Rightarrow> ontology_class list option) \<Rightarrow> graph_db \<Rightarrow> string
     \<Rightarrow> (string \<times> string \<times> real) \<Rightarrow> ontology_class list option \<Rightarrow> ontology_class list option" where
  "loop_step rec g class_id = (\<lambda>(from_node, to_node, w) acc.
             case acc of None \<Rightarrow> None
             | Some superclasses \<Rightarrow>
                 if from_node = class_id \<and> edge_has_label g from_node to_node SUBCLASS_RELATION
                 then (case get_class g to_node of
                         Inl e \<Rightarrow> Some superclasses
                       | Inr c \<Rightarrow>
                           if False then Some (superclasses @ [c])
                           else (case rec to_node of
                                   None \<Rightarrow> None
                                 | Some indirect \<Rightarrow> Some (superclasses @ [c] @ indirect)))
                 else Some superclasses)"

lemma superclasses_loop_step:
  "superclasses_loop rec g class_id False = fold (loop_step rec g class_id) (get_all_edges g) (Some [])"
  unfolding superclasses_loop_def loop_step_def ..

lemma loop_step_hit:
  assumes "\<And>t. (c, t) \<in> superclass_rel g \<Longrightarrow> rec t = Some (res t)"
  shows "loop_step rec g c x (Some acc) = Some (acc @ indirect_hit res g c x)"
proof -
  obtain f t w where x: "x = (f, t, w)" by (cases x) auto
  show ?thesis
  proof (cases "f = c \<and> edge_has_label g f t SUBCLASS_RELATION")
    case False
    then show ?thesis unfolding x by (auto simp: loop_step_def indirect_hit_def)
  next
    case True
    then have fc: "f = c" and e: "edge_has_label g c t SUBCLASS_RELATION" by auto
    show ?thesis
    proof (cases "get_class g t")
      case (Inl err)
      with fc e show ?thesis unfolding x by (simp add: loop_step_def indirect_hit_def)
    next
      case (Inr cl)
      with e have "(c, t) \<in> superclass_rel g" by (simp add: superclass_rel_def)
      then have "rec t = Some (res t)" by (rule assms)
      with Inr fc e show ?thesis unfolding x by (simp add: loop_step_def indirect_hit_def)
    qed
  qed
qed

lemma fold_loop_step:
  assumes "\<And>t. (c, t) \<in> superclass_rel g \<Longrightarrow> rec t = Some (res t)"
  shows "fold (loop_step rec g c) xs (Some acc) = Some (acc @ concat (map (indirect_hit res g c) xs))"
proof (induction xs arbitrary: acc)
  case Nil
  then show ?case by simp
next
  case (Cons x xs)
  show ?case by (simp add: loop_step_hit[OF assms] Cons.IH)
qed

lemma superclasses_loop_indirect:
  assumes "\<And>t. (c, t) \<in> superclass_rel g \<Longrightarrow> rec t = Some (res t)"
  shows "superclasses_loop rec g c False
           = Some (concat (map (indirect_hit res g c) (get_all_edges g)))"
  unfolding superclasses_loop_step
  using fold_loop_step[where xs = "get_all_edges g" and acc = "[]", OF assms] by simp

lemma indirect_hit_mem:
  "cl \<in> set (indirect_hit res g c (f, t, w))
     \<longleftrightarrow> f = c \<and> edge_has_label g c t SUBCLASS_RELATION
         \<and> (\<exists>p. get_class g t = Inr p \<and> (cl = p \<or> cl \<in> set (res t)))"
proof (cases "f = c \<and> edge_has_label g f t SUBCLASS_RELATION")
  case False
  then have "indirect_hit res g c (f, t, w) = []" by (auto simp: indirect_hit_def)
  with False show ?thesis by auto
next
  case True
  then have fc: "f = c" and e: "edge_has_label g c t SUBCLASS_RELATION" by auto
  show ?thesis
  proof (cases "get_class g t")
    case (Inl err)
    with fc e have "indirect_hit res g c (f, t, w) = []" by (simp add: indirect_hit_def)
    with Inl show ?thesis by simp
  next
    case (Inr p)
    with fc e have "indirect_hit res g c (f, t, w) = p # res t" by (simp add: indirect_hit_def)
    with fc e Inr show ?thesis by auto
  qed
qed

lemma ids_indirect:
  "cls_id ` set (concat (map (indirect_hit res g c) (get_all_edges g)))
     = {p. (c, p) \<in> superclass_rel g}
       \<union> (\<Union>p\<in>{p. (c, p) \<in> superclass_rel g}. cls_id ` set (res p))"
proof (intro equalityI subsetI)
  fix d assume "d \<in> cls_id ` set (concat (map (indirect_hit res g c) (get_all_edges g)))"
  then obtain cl x where x: "x \<in> set (get_all_edges g)" and cl: "cl \<in> set (indirect_hit res g c x)"
    and d: "d = cls_id cl" by auto
  obtain f t w where "x = (f, t, w)" by (cases x) auto
  with cl obtain p where e: "edge_has_label g c t SUBCLASS_RELATION" and p: "get_class g t = Inr p"
    and k: "cl = p \<or> cl \<in> set (res t)" by (auto simp: indirect_hit_mem)
  from e p have r: "(c, t) \<in> superclass_rel g" by (simp add: superclass_rel_def)
  from k show "d \<in> {p. (c, p) \<in> superclass_rel g}
       \<union> (\<Union>p\<in>{p. (c, p) \<in> superclass_rel g}. cls_id ` set (res p))"
  proof
    assume "cl = p"
    then have "d = t" using d p get_class_id by simp
    with r show ?thesis by simp
  next
    assume "cl \<in> set (res t)"
    with r d show ?thesis by blast
  qed
next
  fix d assume "d \<in> {p. (c, p) \<in> superclass_rel g}
       \<union> (\<Union>p\<in>{p. (c, p) \<in> superclass_rel g}. cls_id ` set (res p))"
  then obtain t where r: "(c, t) \<in> superclass_rel g" and k: "d = t \<or> d \<in> cls_id ` set (res t)"
    by auto
  from r obtain p where e: "edge_has_label g c t SUBCLASS_RELATION" and p: "get_class g t = Inr p"
    by (auto simp: superclass_rel_def)
  from edge_has_label_listed[OF e] obtain w where w: "(c, t, w) \<in> set (get_all_edges g)" ..
  from k obtain cl where "d = cls_id cl" and "cl = p \<or> cl \<in> set (res t)"
    using get_class_id[OF p] by auto
  then have "cl \<in> set (indirect_hit res g c (c, t, w))" and "d = cls_id cl"
    using e p by (auto simp: indirect_hit_mem)
  with w show "d \<in> cls_id ` set (concat (map (indirect_hit res g c) (get_all_edges g)))"
    by auto
qed

lemma get_superclasses_Suc:
  "get_superclasses (Suc n) g c False
     = superclasses_loop (\<lambda>to_node. get_superclasses n g to_node False) g c False"
  by simp

lemma get_superclasses_terminates:
  assumes "acyclic (superclass_rel g)"
  shows "\<exists>n cs. (\<forall>m\<ge>n. get_superclasses m g c False = Some cs)
           \<and> cls_id ` set cs = {d. (c, d) \<in> (superclass_rel g)\<^sup>+}"
proof -
  let ?R = "superclass_rel g"
  have "wf (?R\<inverse>)" using finite_superclass_rel assms by (rule finite_acyclic_wf_converse)
  then show ?thesis
  proof (induction c rule: wf_induct_rule)
    case (less c)
    let ?S = "{p. (c, p) \<in> ?R}"
    have finS: "finite ?S"
    proof (rule finite_subset)
      show "?S \<subseteq> snd ` ?R" by force
    qed (simp add: finite_superclass_rel)
    have "\<forall>p. \<exists>cs. (c, p) \<in> ?R \<longrightarrow> (\<exists>n. \<forall>m\<ge>n. get_superclasses m g p False = Some cs
              \<and> cls_id ` set cs = {d. (p, d) \<in> ?R\<^sup>+})"
    proof
      fix p
      show "\<exists>cs. (c, p) \<in> ?R \<longrightarrow> (\<exists>n. \<forall>m\<ge>n. get_superclasses m g p False = Some cs
              \<and> cls_id ` set cs = {d. (p, d) \<in> ?R\<^sup>+})"
      proof (cases "(c, p) \<in> ?R")
        case True
        then have "(p, c) \<in> ?R\<inverse>" by simp
        from less.IH[OF this] obtain n cs where
          "\<forall>m\<ge>n. get_superclasses m g p False = Some cs"
          "cls_id ` set cs = {d. (p, d) \<in> ?R\<^sup>+}" by blast
        then show ?thesis by blast
      next
        case False
        then show ?thesis by simp
      qed
    qed
    from choice[OF this] obtain res where
      "\<forall>p. (c, p) \<in> ?R \<longrightarrow> (\<exists>n. \<forall>m\<ge>n. get_superclasses m g p False = Some (res p)
              \<and> cls_id ` set (res p) = {d. (p, d) \<in> ?R\<^sup>+})" ..
    then have res: "\<forall>p\<in>?S. \<exists>n. \<forall>m\<ge>n. get_superclasses m g p False = Some (res p)
              \<and> cls_id ` set (res p) = {d. (p, d) \<in> ?R\<^sup>+}" by simp
    from finite_fuel_bound[OF finS res] obtain N where
      N: "\<forall>p\<in>?S. \<forall>m\<ge>N. get_superclasses m g p False = Some (res p)
              \<and> cls_id ` set (res p) = {d. (p, d) \<in> ?R\<^sup>+}" ..
    let ?cs = "concat (map (indirect_hit res g c) (get_all_edges g))"
    have run: "get_superclasses m g c False = Some ?cs" if "m \<ge> Suc N" for m
    proof -
      from that obtain k where m: "m = Suc k" and k: "k \<ge> N" by (cases m) auto
      have "\<And>t. (c, t) \<in> ?R \<Longrightarrow> get_superclasses k g t False = Some (res t)"
        using N k by simp
      then show ?thesis unfolding m get_superclasses_Suc by (rule superclasses_loop_indirect)
    qed
    have anc: "cls_id ` set (res p) = {d. (p, d) \<in> ?R\<^sup>+}" if "p \<in> ?S" for p
      using N that by blast
    have "cls_id ` set ?cs = ?S \<union> (\<Union>p\<in>?S. {d. (p, d) \<in> ?R\<^sup>+})"
      unfolding ids_indirect using anc by auto
    also have "\<dots> = {d. (c, d) \<in> ?R\<^sup>+}"
    proof (intro equalityI subsetI)
      fix d assume "d \<in> ?S \<union> (\<Union>p\<in>?S. {d. (p, d) \<in> ?R\<^sup>+})"
      then show "d \<in> {d. (c, d) \<in> ?R\<^sup>+}" by (auto intro: trancl_into_trancl2)
    next
      fix d assume "d \<in> {d. (c, d) \<in> ?R\<^sup>+}"
      then have "(c, d) \<in> ?R\<^sup>+" by simp
      then obtain p where "(c, p) \<in> ?R" "(p, d) \<in> ?R\<^sup>*" by (auto dest: tranclD)
      then show "d \<in> ?S \<union> (\<Union>p\<in>?S. {d. (p, d) \<in> ?R\<^sup>+})"
        by (auto simp: rtrancl_eq_or_trancl)
    qed
    finally have "cls_id ` set ?cs = {d. (c, d) \<in> ?R\<^sup>+}" .
    with run show ?case by blast
  qed
qed

text \<open>
  C6, as the code has it. In a store whose \<open>subClassOf\<close> relation is acyclic,
  \<open>get_superclasses\<close> with \<open>direct_only = False\<close> returns (every sufficient recursion
  depth gives the same list), and the classes in the returned list are exactly the classes
  reached from \<open>c\<close> along \<open>subClassOf\<close> edges each of whose targets reads back as a
  class, the root \<open>owl:Thing\<close> included whenever such a chain leads to it; a target for
  which \<open>get_class\<close> raises is skipped together with everything above it. Where every
  \<open>subClassOf\<close> edge of the store points at a class, these are all the nodes reachable
  along \<open>subClassOf\<close> edges.
\<close>

theorem get_superclasses_includes_ancestors:
  assumes "acyclic (subclass_rel g)"
  shows "\<exists>n cs. (\<forall>m\<ge>n. get_superclasses m g c False = Some cs)
           \<and> cls_id ` set cs = {d. (c, d) \<in> (superclass_rel g)\<^sup>+}
           \<and> ((\<forall>(s, t)\<in>subclass_rel g. \<exists>cl. get_class g t = Inr cl)
                \<longrightarrow> (\<forall>d. (c, d) \<in> (subclass_rel g)\<^sup>+ \<longrightarrow> d \<in> cls_id ` set cs))"
proof -
  have "acyclic (superclass_rel g)"
    using assms superclass_rel_subset by (rule acyclic_subset)
  from get_superclasses_terminates[OF this, of c] obtain n cs where
    run: "\<forall>m\<ge>n. get_superclasses m g c False = Some cs"
    and ids: "cls_id ` set cs = {d. (c, d) \<in> (superclass_rel g)\<^sup>+}" by blast
  have "\<forall>d. (c, d) \<in> (subclass_rel g)\<^sup>+ \<longrightarrow> d \<in> cls_id ` set cs"
    if typed: "\<forall>(s, t)\<in>subclass_rel g. \<exists>cl. get_class g t = Inr cl"
  proof -
    have "subclass_rel g \<subseteq> superclass_rel g"
      using typed by (auto simp: superclass_rel_def subclass_rel_def)
    with superclass_rel_subset have "subclass_rel g = superclass_rel g" by blast
    with ids show ?thesis by simp
  qed
  with run ids show ?thesis by blast
qed

lemma get_class_diamond:
  "t \<in> {''A'', ''B'', ''C'', ''D''} \<Longrightarrow> \<exists>cl. get_class diamond_store t = Inr cl"
  by (auto simp: get_class_def diamond_store_def store_defs class_node_def)

theorem get_superclasses_includes_ancestors_witness:
  "acyclic (subclass_rel diamond_store)
   \<and> (\<exists>n cs. (\<forall>m\<ge>n. get_superclasses m diamond_store ''D'' False = Some cs)
         \<and> {''B'', ''C'', ''A''} \<subseteq> cls_id ` set cs)"
proof -
  have ac: "acyclic (subclass_rel diamond_store)"
  proof (rule acyclicI_order)
    fix a b assume "(a, b) \<in> subclass_rel diamond_store"
    then show "(if b = ''A'' then 0 else if b = ''D'' then 2 else (1::nat))
             < (if a = ''A'' then 0 else if a = ''D'' then 2 else 1)"
      unfolding subclass_rel_diamond by auto
  qed
  have typed: "\<forall>(s, t)\<in>subclass_rel diamond_store. \<exists>cl. get_class diamond_store t = Inr cl"
    unfolding subclass_rel_diamond using get_class_diamond by simp
  have "(''D'', ''B'') \<in> subclass_rel diamond_store" "(''D'', ''C'') \<in> subclass_rel diamond_store"
    "(''B'', ''A'') \<in> subclass_rel diamond_store"
    by (simp_all add: subclass_rel_diamond)
  then have reach: "(''D'', ''B'') \<in> (subclass_rel diamond_store)\<^sup>+"
    "(''D'', ''C'') \<in> (subclass_rel diamond_store)\<^sup>+"
    "(''D'', ''A'') \<in> (subclass_rel diamond_store)\<^sup>+"
    by (auto intro: trancl_into_trancl2)
  from get_superclasses_includes_ancestors[OF ac, of "''D''"] typed obtain n cs where
    "\<forall>m\<ge>n. get_superclasses m diamond_store ''D'' False = Some cs"
    "\<forall>d. (''D'', d) \<in> (subclass_rel diamond_store)\<^sup>+ \<longrightarrow> d \<in> cls_id ` set cs"
    by blast
  with reach ac show ?thesis by blast
qed

lemma get_superclasses_diamond:
  "map_option (map cls_id) (get_superclasses 2 diamond_store ''D'' False)
     = Some [''B'', ''A'', ''C'', ''A'']"
  by (simp add: numeral_2_eq_2 superclasses_loop_def get_class_def diamond_store_def store_defs
        class_node_def subclass_edge_def service_consts)

section \<open>Properties, instances and statistics\<close>

text \<open>\<open>",".join(xs)\<close> and \<open>s.split(',')\<close>.\<close>

fun join_commas :: "string list \<Rightarrow> string" where
  "join_commas [] = []"
| "join_commas [x] = x"
| "join_commas (x # y # ys) = x @ CHR '','' # join_commas (y # ys)"

fun split_commas :: "string \<Rightarrow> string list" where
  "split_commas [] = [[]]"
| "split_commas (x # xs) =
     (if x = CHR '','' then [] # split_commas xs
      else (case split_commas xs of [] \<Rightarrow> [[x]] | w # ws \<Rightarrow> (x # w) # ws))"

text \<open>\<open>x or ""\<close>.\<close>

definition or_empty :: "pyval \<Rightarrow> pyval" where
  "or_empty v = (if truthy v then v else PStr [])"

subsection \<open>Property operations\<close>

definition create_property ::
  "graph_db \<Rightarrow> ontology_property \<Rightarrow> error + (graph_db \<times> ontology_property)" where
  "create_property g prop_obj =
     (if node_exists g (prop_id prop_obj)
      then Inl (ValidationError (''Property '' @ quoted (prop_id prop_obj) @ '' already exists''))
      else
        (let g1 = add_node g (prop_id prop_obj)
                    [''label'' \<mapsto> prop_label prop_obj,
                     ''node_type'' \<mapsto> PStr PROPERTY_TYPE,
                     ''property_type'' \<mapsto> PStr (property_type_value (prop_type prop_obj)),
                     ''description'' \<mapsto> or_empty (prop_description prop_obj),
                     ''inverse_of'' \<mapsto> or_empty (inverse_of prop_obj),
                     ''characteristics'' \<mapsto>
                        PStr (join_commas (map characteristic_value (characteristics prop_obj)))];
             g2 = fold (\<lambda>domain_class h.
                          if node_exists h domain_class
                          then add_edge h (prop_id prop_obj) domain_class DOMAIN_RELATION default_weight
                          else h)
                    (prop_domain prop_obj) g1;
             g3 = fold (\<lambda>range_class h.
                          if node_exists h range_class
                          then add_edge h (prop_id prop_obj) range_class RANGE_RELATION default_weight
                          else h)
                    (prop_range prop_obj) g2
         in Inr (g3, prop_obj)))"

text \<open>
  The characteristics stored on a node: nothing for a falsy value, the recognised members
  of the comma-separated string otherwise; a truthy value that is not a string has no
  \<open>split\<close> method.
\<close>

definition read_characteristics :: "pyval \<Rightarrow> error + property_characteristic list" where
  "read_characteristics char_str =
     (if \<not> truthy char_str then Inr []
      else case char_str of
        PStr s \<Rightarrow> Inr (remdups (List.map_filter PropertyCharacteristic (split_commas s)))
      | _ \<Rightarrow> Inl (AttributeError ''split''))"

definition get_property :: "graph_db \<Rightarrow> string \<Rightarrow> error + ontology_property" where
  "get_property g property_id =
     (if \<not> node_exists g property_id
      then Inl (NodeNotFoundError (''Property '' @ quoted property_id @ '' not found''))
      else
        (let node_data = get_node_data g property_id in
         if dict_get node_data ''node_type'' \<noteq> PStr PROPERTY_TYPE
         then Inl (ValidationError (''Node '' @ quoted property_id @ '' is not a property''))
         else
           (let own = filter (\<lambda>(from_node, to_node, w). from_node = property_id) (get_all_edges g);
                domain = map (\<lambda>(from_node, to_node, w). to_node)
                           (filter (\<lambda>(from_node, to_node, w).
                                      edge_has_label g from_node to_node DOMAIN_RELATION) own);
                range_list = map (\<lambda>(from_node, to_node, w). to_node)
                           (filter (\<lambda>(from_node, to_node, w).
                                      \<not> edge_has_label g from_node to_node DOMAIN_RELATION
                                      \<and> edge_has_label g from_node to_node RANGE_RELATION) own)
            in case read_characteristics (dict_get_default node_data ''characteristics'' (PStr [])) of
                 Inl e \<Rightarrow> Inl e
               | Inr chars \<Rightarrow>
                  (case PropertyType (dict_get_default node_data ''property_type'' (PStr ''object'')) of
                     Inl e \<Rightarrow> Inl e
                   | Inr ptype \<Rightarrow>
                       Inr \<lparr>prop_id = property_id,
                            prop_label = dict_get_default node_data ''label'' (PStr property_id),
                            prop_type = ptype,
                            prop_description = dict_get node_data ''description'',
                            prop_domain = domain,
                            prop_range = range_list,
                            inverse_of =
                              (if truthy (dict_get node_data ''inverse_of'')
                               then dict_get node_data ''inverse_of'' else PNone),
                            characteristics = chars,
                            annotations = Map.empty\<rparr>))))"

definition get_all_properties :: "graph_db \<Rightarrow> ontology_property list" where
  "get_all_properties g =
     concat (map (\<lambda>node_id.
                    if dict_get (get_node_data g node_id) ''node_type'' = PStr PROPERTY_TYPE
                    then (case get_property g node_id of Inr p \<Rightarrow> [p] | Inl e \<Rightarrow> [])
                    else [])
              (get_all_nodes g))"

subsection \<open>Instance operations\<close>

definition create_instance ::
  "graph_db \<Rightarrow> ontology_instance \<Rightarrow> error + (graph_db \<times> ontology_instance)" where
  "create_instance g instance_obj =
     (if node_exists g (inst_id instance_obj)
      then Inl (ValidationError (''Instance '' @ quoted (inst_id instance_obj) @ '' already exists''))
      else case find (\<lambda>class_id. \<not> node_exists g class_id) (class_ids instance_obj) of
        Some class_id \<Rightarrow> Inl (NodeNotFoundError (''Class '' @ quoted class_id @ '' not found''))
      | None \<Rightarrow>
         (let node_data =
                [''label'' \<mapsto> inst_label instance_obj,
                 ''node_type'' \<mapsto> PStr INSTANCE_TYPE] ++ inst_properties instance_obj;
              g1 = add_node g (inst_id instance_obj) node_data;
              g2 = fold (\<lambda>class_id h. add_edge h (inst_id instance_obj) class_id TYPE_RELATION default_weight)
                     (class_ids instance_obj) g1
          in Inr (g2, instance_obj)))"

subsection \<open>Statistics\<close>

record ontology_stats =
  total_classes :: nat
  total_properties :: nat
  total_instances :: nat
  total_object_properties :: nat
  total_data_properties :: nat
  total_annotation_properties :: nat
  max_hierarchy_depth :: nat

text \<open>
  The local function \<open>get_depth\<close> of \<open>get_statistics\<close>. It recurses on the direct
  superclasses without a guard against cycles; as for \<open>get_superclasses\<close>, the first
  argument of the model is the recursion depth still allowed.
\<close>

definition depth_body :: "(string \<Rightarrow> nat option) \<Rightarrow> graph_db \<Rightarrow> string \<Rightarrow> nat option" where
  "depth_body rec g class_id =
     (let superclasses = direct_superclasses g class_id in
      if superclasses = [] then Some 0
      else (case those (map (\<lambda>sc. rec (cls_id sc)) superclasses) of
              None \<Rightarrow> None
            | Some depths \<Rightarrow> Some (1 + Max (set depths))))"

primrec get_depth :: "nat \<Rightarrow> graph_db \<Rightarrow> string \<Rightarrow> nat option" where
  "get_depth 0 g class_id = depth_body (\<lambda>c. None) g class_id"
| "get_depth (Suc n) g class_id = depth_body (\<lambda>c. get_depth n g c) g class_id"

definition get_statistics :: "nat \<Rightarrow> graph_db \<Rightarrow> ontology_stats option" where
  "get_statistics n g =
     (let all_classes = get_all_classes g;
          all_properties = get_all_properties g;
          instances = filter (\<lambda>node_id. dict_get (get_node_data g node_id) ''node_type''
                                            = PStr INSTANCE_TYPE) (get_all_nodes g);
          obj_props = filter (\<lambda>p. prop_type p = OBJECT) all_properties;
          data_props = filter (\<lambda>p. prop_type p = DATA) all_properties;
          annot_props = filter (\<lambda>p. prop_type p = ANNOTATION) all_properties
      in case those (map (\<lambda>class_obj. get_depth n g (cls_id class_obj)) all_classes) of
           None \<Rightarrow> None
         | Some depths \<Rightarrow>
             Some \<lparr>total_classes = length all_classes,
                   total_properties = length all_properties,
                   total_instances = length instances,
                   total_object_properties = length obj_props,
                   total_data_properties = length data_props,
                   total_annotation_properties = length annot_props,
                   max_hierarchy_depth = fold (\<lambda>depth max_depth. max max_depth depth) depths 0\<rparr>)"

subsection \<open>Hierarchy depth\<close>

lemma those_map_Some:
  "(\<And>x. x \<in> set xs \<Longrightarrow> f x = Some (h x)) \<Longrightarrow> those (map f xs) = Some (map h xs)"
  by (induction xs) simp_all

lemma fold_max_eq: "fold (\<lambda>depth max_depth. max max_depth depth) ds (a::nat) = Max (insert a (set ds))"
proof (induction ds arbitrary: a)
  case Nil
  then show ?case by simp
next
  case (Cons d ds)
  have "Max (insert (max a d) (set ds)) = Max (insert a (insert d (set ds)))"
  proof (cases "set ds = {}")
    case True
    then show ?thesis by (simp add: max.commute)
  next
    case False
    then show ?thesis by (simp add: max.assoc)
  qed
  with Cons.IH[of "max a d"] show ?case by simp
qed

lemma depth_body_eq:
  assumes "\<And>p. (c, p) \<in> superclass_rel g \<Longrightarrow> rec p = Some (dep p)"
  shows "depth_body rec g c =
           Some (if direct_superclasses g c = [] then 0
                 else 1 + Max (dep ` cls_id ` set (direct_superclasses g c)))"
proof (cases "direct_superclasses g c = []")
  case True
  then show ?thesis by (simp add: depth_body_def)
next
  case False
  have "those (map (\<lambda>sc. rec (cls_id sc)) (direct_superclasses g c))
          = Some (map (\<lambda>sc. dep (cls_id sc)) (direct_superclasses g c))"
    by (rule those_map_Some) (simp add: assms in_superclass_relI)
  moreover have "set (map (\<lambda>sc. dep (cls_id sc)) (direct_superclasses g c))
          = dep ` cls_id ` set (direct_superclasses g c)" by auto
  ultimately show ?thesis using False by (simp add: depth_body_def Let_def)
qed

lemma get_depth_terminates:
  assumes "acyclic (superclass_rel g)"
  shows "\<exists>n d. \<forall>m\<ge>n. get_depth m g c = Some d"
proof -
  let ?R = "superclass_rel g"
  have "wf (?R\<inverse>)" using finite_superclass_rel assms by (rule finite_acyclic_wf_converse)
  then show ?thesis
  proof (induction c rule: wf_induct_rule)
    case (less c)
    let ?S = "{p. (c, p) \<in> ?R}"
    have finS: "finite ?S"
    proof (rule finite_subset)
      show "?S \<subseteq> snd ` ?R" by force
    qed (simp add: finite_superclass_rel)
    have "\<forall>p. \<exists>d. (c, p) \<in> ?R \<longrightarrow> (\<exists>n. \<forall>m\<ge>n. get_depth m g p = Some d)"
    proof
      fix p
      show "\<exists>d. (c, p) \<in> ?R \<longrightarrow> (\<exists>n. \<forall>m\<ge>n. get_depth m g p = Some d)"
      proof (cases "(c, p) \<in> ?R")
        case True
        then have "(p, c) \<in> ?R\<inverse>" by simp
        from less.IH[OF this] show ?thesis by blast
      next
        case False
        then show ?thesis by simp
      qed
    qed
    from choice[OF this] obtain dep where
      "\<forall>p. (c, p) \<in> ?R \<longrightarrow> (\<exists>n. \<forall>m\<ge>n. get_depth m g p = Some (dep p))" ..
    then have "\<forall>p\<in>?S. \<exists>n. \<forall>m\<ge>n. get_depth m g p = Some (dep p)" by simp
    from finite_fuel_bound[OF finS this] obtain N where
      N: "\<forall>p\<in>?S. \<forall>m\<ge>N. get_depth m g p = Some (dep p)" ..
    have "get_depth m g c = Some (if direct_superclasses g c = [] then 0
                 else 1 + Max (dep ` cls_id ` set (direct_superclasses g c)))"
      if "m \<ge> Suc N" for m
    proof -
      from that obtain k where m: "m = Suc k" and k: "k \<ge> N" by (cases m) auto
      have "\<And>p. (c, p) \<in> ?R \<Longrightarrow> get_depth k g p = Some (dep p)" using N k by simp
      then show ?thesis unfolding m get_depth.simps by (rule depth_body_eq)
    qed
    then show ?case by blast
  qed
qed

lemma get_depth_function:
  assumes "acyclic (superclass_rel g)"
  shows "\<exists>dep nf. (\<forall>c. \<forall>m\<ge>nf c. get_depth m g c = Some (dep c))
           \<and> (\<forall>c. dep c = (if direct_superclasses g c = [] then 0
                 else 1 + Max (dep ` cls_id ` set (direct_superclasses g c))))"
proof -
  let ?R = "superclass_rel g"
  have "\<forall>c. \<exists>d. \<exists>n. \<forall>m\<ge>n. get_depth m g c = Some d"
    using get_depth_terminates[OF assms] by blast
  from choice[OF this] obtain dep where "\<forall>c. \<exists>n. \<forall>m\<ge>n. get_depth m g c = Some (dep c)" ..
  from choice[OF this] obtain nf where nf: "\<forall>c. \<forall>m\<ge>nf c. get_depth m g c = Some (dep c)" ..
  have "dep c = (if direct_superclasses g c = [] then 0
                 else 1 + Max (dep ` cls_id ` set (direct_superclasses g c)))" for c
  proof -
    let ?S = "{p. (c, p) \<in> ?R}"
    have finS: "finite ?S"
    proof (rule finite_subset)
      show "?S \<subseteq> snd ` ?R" by force
    qed (simp add: finite_superclass_rel)
    have "\<forall>p\<in>?S. \<exists>n. \<forall>m\<ge>n. get_depth m g p = Some (dep p)" using nf by blast
    from finite_fuel_bound[OF finS this] obtain N where
      N: "\<forall>p\<in>?S. \<forall>m\<ge>N. get_depth m g p = Some (dep p)" ..
    let ?k = "max N (nf c)"
    have "\<And>p. (c, p) \<in> ?R \<Longrightarrow> get_depth ?k g p = Some (dep p)" using N by simp
    then have "get_depth (Suc ?k) g c = Some (if direct_superclasses g c = [] then 0
                 else 1 + Max (dep ` cls_id ` set (direct_superclasses g c)))"
      unfolding get_depth.simps by (rule depth_body_eq)
    moreover have "nf c \<le> Suc ?k" by simp
    with nf have "get_depth (Suc ?k) g c = Some (dep c)" by blast
    ultimately show ?thesis by simp
  qed
  with nf show ?thesis by blast
qed

text \<open>
  C9, as the code has it. In a store whose \<open>subClassOf\<close> relation is acyclic,
  \<open>get_statistics\<close> returns, and its \<open>max_hierarchy_depth\<close> is the maximum, over all
  classes (and 0), of the depth \<open>dep\<close> that is 0 for a class with no direct superclass
  (the root) and 1 + the maximum of the depths of its direct superclasses otherwise.
  A class directly under the root therefore has depth 1.
\<close>

theorem max_hierarchy_depth_spec:
  assumes "acyclic (subclass_rel g)"
  shows "\<exists>n st dep. (\<forall>m\<ge>n. get_statistics m g = Some st)
           \<and> (\<forall>c. dep c = (if direct_superclasses g c = [] then 0
                 else 1 + Max (dep ` cls_id ` set (direct_superclasses g c))))
           \<and> max_hierarchy_depth st = Max (insert 0 (dep ` cls_id ` set (get_all_classes g)))"
proof -
  have ac: "acyclic (superclass_rel g)"
    using assms superclass_rel_subset by (rule acyclic_subset)
  from get_depth_function[OF ac] obtain dep nf where
    nf: "\<forall>c. \<forall>m\<ge>nf c. get_depth m g c = Some (dep c)"
    and dep: "\<forall>c. dep c = (if direct_superclasses g c = [] then 0
                 else 1 + Max (dep ` cls_id ` set (direct_superclasses g c)))" by blast
  let ?cs = "get_all_classes g"
  have "\<forall>c\<in>set ?cs. \<exists>n. \<forall>m\<ge>n. get_depth m g (cls_id c) = Some (dep (cls_id c))"
    using nf by blast
  from finite_fuel_bound[OF finite_set this] obtain N where
    N: "\<forall>c\<in>set ?cs. \<forall>m\<ge>N. get_depth m g (cls_id c) = Some (dep (cls_id c))" ..
  let ?depths = "map (\<lambda>c. dep (cls_id c)) ?cs"
  let ?st = "\<lparr>total_classes = length ?cs,
       total_properties = length (get_all_properties g),
       total_instances = length (filter (\<lambda>node_id. dict_get (get_node_data g node_id) ''node_type''
                                            = PStr INSTANCE_TYPE) (get_all_nodes g)),
       total_object_properties = length (filter (\<lambda>p. prop_type p = OBJECT) (get_all_properties g)),
       total_data_properties = length (filter (\<lambda>p. prop_type p = DATA) (get_all_properties g)),
       total_annotation_properties = length (filter (\<lambda>p. prop_type p = ANNOTATION) (get_all_properties g)),
       max_hierarchy_depth = fold (\<lambda>depth max_depth. max max_depth depth) ?depths 0\<rparr>"
  have run: "get_statistics m g = Some ?st" if "m \<ge> N" for m
  proof -
    have "those (map (\<lambda>class_obj. get_depth m g (cls_id class_obj)) ?cs) = Some ?depths"
      by (rule those_map_Some) (use N that in simp)
    then show ?thesis by (simp add: get_statistics_def Let_def)
  qed
  have "max_hierarchy_depth ?st = Max (insert 0 (dep ` cls_id ` set ?cs))"
    by (simp add: fold_max_eq image_image)
  with run dep show ?thesis by blast
qed

section \<open>Sequences of service calls\<close>

datatype operation =
    CreateClass ontology_class
  | CreateProperty ontology_property
  | CreateInstance ontology_instance

fun apply_operation :: "graph_db \<Rightarrow> operation \<Rightarrow> error + graph_db" where
  "apply_operation g (CreateClass c) =
     (case create_class g c of Inl e \<Rightarrow> Inl e | Inr (g', r) \<Rightarrow> Inr g')"
| "apply_operation g (CreateProperty p) =
     (case create_property g p of Inl e \<Rightarrow> Inl e | Inr (g', r) \<Rightarrow> Inr g')"
| "apply_operation g (CreateInstance i) =
     (case create_instance g i of Inl e \<Rightarrow> Inl e | Inr (g', r) \<Rightarrow> Inr g')"

text \<open>Every call of the sequence succeeds, or the first exception ends it.\<close>

fun run_operations :: "graph_db \<Rightarrow> operation list \<Rightarrow> error + graph_db" where
  "run_operations g [] = Inr g"
| "run_operations g (op # ops) =
     (case apply_operation g op of Inl e \<Rightarrow> Inl e | Inr g' \<Rightarrow> run_operations g' ops)"

subsection \<open>Examples\<close>

definition root_node :: pydict where
  "root_node = [''label'' \<mapsto> PStr ''Thing'', ''node_type'' \<mapsto> PStr CLASS_TYPE,
                ''description'' \<mapsto> PStr ''Root of all classes'']"

definition simple_class :: "string \<Rightarrow> string list \<Rightarrow> ontology_class" where
  "simple_class n parents =
     \<lparr>cls_id = n, cls_label = PStr n, cls_description = PNone, parent_classes = parents,
      equivalent_classes = [], disjoint_classes = [], is_abstract = PBool False,
      cls_properties = Map.empty\<rparr>"

definition animal_store :: graph_db where
  "animal_store =
     \<lparr>gnodes = [(owl_Thing, root_node), (''Animal'', class_node ''Animal'')],
      gedges = [((''Animal'', owl_Thing), subclass_edge)]\<rparr>"

lemma new_service_eq: "new_service = \<lparr>gnodes = [(owl_Thing, root_node)], gedges = []\<rparr>"
  by (simp add: new_service_def initialize_ontology_def empty_graph_def node_exists_def
        get_node_def add_node_def root_node_def)

lemma animal_store_created:
  "run_operations new_service [CreateClass (simple_class ''Animal'' [])] = Inr animal_store"
  by (simp add: new_service_eq create_class_def simple_class_def animal_store_def
        node_exists_def get_node_def add_node_def add_edge_def class_node_def subclass_edge_def
        owl_Thing_def Let_def default_weight_def)

lemmas eval_defs =
  direct_superclasses_eq direct_hit_def get_class_def get_all_classes_def get_all_properties_def
  get_property_def store_defs class_node_def subclass_edge_def root_node_def service_consts
  Let_def depth_body_def get_statistics_def

text \<open>
  C9 as stated fails: the class \<open>Animal\<close>, created without parents and so placed directly
  under the root, is given depth 1 (the root has depth 0), and the statistics report a
  maximum depth of 1.
\<close>

lemma animal_depth:
  "map cls_id (direct_superclasses animal_store ''Animal'') = [owl_Thing]
   \<and> direct_superclasses animal_store owl_Thing = []
   \<and> get_depth 1 animal_store ''Animal'' = Some 1
   \<and> get_depth 1 animal_store owl_Thing = Some 0
   \<and> map_option max_hierarchy_depth (get_statistics 1 animal_store) = Some 1"
  by (simp add: animal_store_def eval_defs)

theorem root_adjacent_depth_counterexample:
  "run_operations new_service [CreateClass (simple_class ''Animal'' [])] = Inr animal_store
   \<and> map cls_id (direct_superclasses animal_store ''Animal'') = [owl_Thing]
   \<and> direct_superclasses animal_store owl_Thing = []
   \<and> get_depth 1 animal_store ''Animal'' = Some 1
   \<and> get_depth 1 animal_store owl_Thing = Some 0
   \<and> map_option max_hierarchy_depth (get_statistics 1 animal_store) = Some 1"
  using animal_store_created animal_depth by blast


lemma subclass_rel_animal: "subclass_rel animal_store = {(''Animal'', owl_Thing)}"
  by (auto simp: subclass_rel_def animal_store_def store_defs subclass_edge_def service_consts
        split: if_splits)

lemma acyclic_animal_store: "acyclic (subclass_rel animal_store)"
proof (rule acyclicI_order)
  fix a b assume "(a, b) \<in> subclass_rel animal_store"
  then show "(if b = ''Animal'' then 1 else (0::nat)) < (if a = ''Animal'' then 1 else 0)"
    unfolding subclass_rel_animal by (auto simp: owl_Thing_def)
qed

theorem max_hierarchy_depth_spec_witness:
  "acyclic (subclass_rel animal_store)
   \<and> (\<exists>n st (dep :: string \<Rightarrow> nat). (\<forall>m\<ge>n. get_statistics m animal_store = Some st)
         \<and> dep owl_Thing = 0 \<and> dep ''Animal'' = 1 \<and> max_hierarchy_depth st = 1)"
proof -
  from max_hierarchy_depth_spec[OF acyclic_animal_store] obtain n st dep where
    run: "\<forall>m\<ge>n. get_statistics m animal_store = Some st"
    and dep: "\<And>c. dep c = (if direct_superclasses animal_store c = [] then 0
                 else 1 + Max (dep ` cls_id ` set (direct_superclasses animal_store c)))"
    and mx: "max_hierarchy_depth st
               = Max (insert 0 (dep ` cls_id ` set (get_all_classes animal_store)))" by blast
  have sup: "map cls_id (direct_superclasses animal_store ''Animal'') = [owl_Thing]"
    "direct_superclasses animal_store owl_Thing = []"
    by (simp_all add: animal_store_def eval_defs)
  have ids: "cls_id ` set (direct_superclasses animal_store ''Animal'') = {owl_Thing}"
    using sup(1) by (metis list.set(1) list.set(2) set_map)
  have d0: "dep owl_Thing = 0" using dep[of owl_Thing] sup(2) by simp
  have ne: "direct_superclasses animal_store ''Animal'' \<noteq> []" using sup(1) by auto
  have d1: "dep ''Animal'' = 1" using dep[of "''Animal''"] ne ids d0 by simp
  have "map cls_id (get_all_classes animal_store) = [owl_Thing, ''Animal'']"
    by (simp add: animal_store_def eval_defs)
  then have "cls_id ` set (get_all_classes animal_store) = {owl_Thing, ''Animal''}"
    by (metis list.set(1) list.set(2) set_map)
  with mx d0 d1 have mx1: "max_hierarchy_depth st = 1" by simp
  have "\<exists>n st (dep :: string \<Rightarrow> nat). (\<forall>m\<ge>n. get_statistics m animal_store = Some st)
         \<and> dep owl_Thing = 0 \<and> dep ''Animal'' = 1 \<and> max_hierarchy_depth st = 1"
    apply (rule exI[where x = n])
    apply (rule exI[where x = st])
    apply (rule exI[where x = dep])
    apply (intro conjI run d0 d1 mx1)
    done
  with acyclic_animal_store show ?thesis by (rule conjI)
qed



text \<open>
  Three classes created through the service: \<open>Z\<close> under the root, \<open>P\<close> under \<open>Z\<close> with an
  extra attribute stored under the reserved key \<open>node_type\<close>, and \<open>X\<close> under \<open>P\<close>.
\<close>

definition overridden_class :: ontology_class where
  "overridden_class =
     (simple_class ''P'' [''Z''])\<lparr>cls_properties := [''node_type'' \<mapsto> PStr INSTANCE_TYPE]\<rparr>"

definition skip_store :: graph_db where
  "skip_store =
     \<lparr>gnodes = [(owl_Thing, root_node), (''Z'', class_node ''Z''),
                (''P'', class_node ''P'' ++ [''node_type'' \<mapsto> PStr INSTANCE_TYPE]),
                (''X'', class_node ''X'')],
      gedges = [((''Z'', owl_Thing), subclass_edge), ((''P'', ''Z''), subclass_edge),
                ((''X'', ''P''), subclass_edge)]\<rparr>"

lemma skip_store_created:
  "run_operations new_service
     [CreateClass (simple_class ''Z'' []), CreateClass overridden_class,
      CreateClass (simple_class ''X'' [''P''])] = Inr skip_store"
  by (simp add: new_service_eq create_class_def simple_class_def overridden_class_def
        skip_store_def node_exists_def get_node_def add_node_def add_edge_def class_node_def
        subclass_edge_def owl_Thing_def Let_def default_weight_def)

lemma subclass_rel_skip:
  "subclass_rel skip_store = {(''Z'', owl_Thing), (''P'', ''Z''), (''X'', ''P'')}"
  by (auto simp: subclass_rel_def skip_store_def store_defs subclass_edge_def service_consts
        split: if_splits)

lemma acyclic_skip_store: "acyclic (subclass_rel skip_store)"
proof (rule acyclicI_order)
  fix a b assume "(a, b) \<in> subclass_rel skip_store"
  then show "(if b = ''Z'' then 1 else if b = ''P'' then 2 else if b = ''X'' then 3 else (0::nat))
           < (if a = ''Z'' then 1 else if a = ''P'' then 2 else if a = ''X'' then 3 else 0)"
    unfolding subclass_rel_skip by (auto simp: owl_Thing_def)
qed

lemma skip_store_reach: "(''X'', ''Z'') \<in> (subclass_rel skip_store)\<^sup>+"
proof -
  have "(''X'', ''P'') \<in> subclass_rel skip_store" "(''P'', ''Z'') \<in> subclass_rel skip_store"
    by (simp_all add: subclass_rel_skip)
  then show ?thesis by (rule trancl_into_trancl2[OF _ r_into_trancl])
qed

lemma skip_store_eval:
  "map_sum (\<lambda>e. ()) cls_id (get_class skip_store ''Z'') = Inr ''Z''
   \<and> get_class skip_store ''P'' = Inl (ValidationError (''Node '' @ quoted ''P'' @ '' is not a class''))
   \<and> get_superclasses 0 skip_store ''X'' False = Some []
   \<and> get_superclasses 3 skip_store ''X'' False = Some []"
  by (simp add: numeral_3_eq_3 superclasses_loop_def skip_store_def eval_defs)

text \<open>
  C6 as stated fails. The store is built by three successful \<open>create_class\<close> calls and its
  \<open>subClassOf\<close> relation is acyclic; the class \<open>Z\<close> is reachable from \<open>X\<close> along the
  \<open>subClassOf\<close> edges \<open>X \<rightarrow> P \<rightarrow> Z\<close>, yet \<open>get_superclasses\<close> returns the empty list for
  \<open>X\<close>: \<open>get_class\<close> raises for \<open>P\<close>, whose node type was overwritten, and the loop skips
  \<open>P\<close> together with everything above it.
\<close>

theorem get_superclasses_skips_counterexample:
  "run_operations new_service
     [CreateClass (simple_class ''Z'' []), CreateClass overridden_class,
      CreateClass (simple_class ''X'' [''P''])] = Inr skip_store
   \<and> acyclic (subclass_rel skip_store)
   \<and> (''X'', ''Z'') \<in> (subclass_rel skip_store)\<^sup>+
   \<and> map_sum (\<lambda>e. ()) cls_id (get_class skip_store ''Z'') = Inr ''Z''
   \<and> get_superclasses 0 skip_store ''X'' False = Some []
   \<and> get_superclasses 3 skip_store ''X'' False = Some []"
  using skip_store_created acyclic_skip_store skip_store_reach skip_store_eval by blast

section \<open>Round trips\<close>

subsection \<open>Store lemmas\<close>

lemma gnodes_add_edge [simp]: "gnodes (add_edge h s t l w) = gnodes h"
  by (simp add: add_edge_def)

lemma node_exists_add_edge [simp]: "node_exists (add_edge h s t l w) n = node_exists h n"
  by (simp add: node_exists_def get_node_def)

lemma get_node_data_add_edge [simp]: "get_node_data (add_edge h s t l w) n = get_node_data h n"
  by (simp add: get_node_data_def get_node_def)

lemma gedges_add_node [simp]: "gedges (add_node g n d) = gedges g"
  by (simp add: add_node_def)



lemma get_node_data_add_node_same [simp]: "get_node_data (add_node g n d) n = d"
  by (simp add: get_node_data_def get_node_def add_node_def update_conv')





lemma get_node_data_cong_nodes: "gnodes h = gnodes h' \<Longrightarrow> get_node_data h n = get_node_data h' n"
  by (simp add: get_node_data_def get_node_def)





lemma parent_classes_set:
  assumes "get_class g a = Inr c"
  shows "set (parent_classes c) = {t. edge_has_label g a t SUBCLASS_RELATION}"
proof -
  have pc: "parent_classes c =
      map (\<lambda>(from_node, to_node, w). to_node)
        (filter (\<lambda>(from_node, to_node, w).
                   from_node = a \<and> edge_has_label g from_node to_node SUBCLASS_RELATION)
           (get_all_edges g))"
    using assms by (auto simp: get_class_def Let_def split: if_splits)
  show ?thesis
  proof (intro equalityI subsetI)
    fix t assume "t \<in> set (parent_classes c)"
    then show "t \<in> {t. edge_has_label g a t SUBCLASS_RELATION}" unfolding pc by auto
  next
    fix t assume "t \<in> {t. edge_has_label g a t SUBCLASS_RELATION}"
    then have e: "edge_has_label g a t SUBCLASS_RELATION" by simp
    from edge_has_label_listed[OF e] obtain w where "(a, t, w) \<in> set (get_all_edges g)" ..
    with e show "t \<in> set (parent_classes c)" unfolding pc by force
  qed
qed

subsection \<open>Classes\<close>













lemmas create_defs =
  new_service_eq create_class_def simple_class_def node_exists_def get_node_def add_node_def
  add_edge_def class_node_def subclass_edge_def owl_Thing_def Let_def default_weight_def





subsection \<open>Properties\<close>

text \<open>The attribute map \<open>create_property\<close> writes.\<close>

definition property_node :: "ontology_property \<Rightarrow> pydict" where
  "property_node prop_obj =
     [''label'' \<mapsto> prop_label prop_obj,
      ''node_type'' \<mapsto> PStr PROPERTY_TYPE,
      ''property_type'' \<mapsto> PStr (property_type_value (prop_type prop_obj)),
      ''description'' \<mapsto> or_empty (prop_description prop_obj),
      ''inverse_of'' \<mapsto> or_empty (inverse_of prop_obj),
      ''characteristics'' \<mapsto>
         PStr (join_commas (map characteristic_value (characteristics prop_obj)))]"







definition simple_property :: "string \<Rightarrow> string list \<Rightarrow> string list \<Rightarrow> ontology_property" where
  "simple_property n ds rs =
     \<lparr>prop_id = n, prop_label = PStr n, prop_type = DATA, prop_description = PNone,
      prop_domain = ds, prop_range = rs, inverse_of = PNone, characteristics = [],
      annotations = Map.empty\<rparr>"








section \<open>Property inheritance and instance validation\<close>

text \<open>
  The dictionaries \<open>get_class_properties\<close> and \<open>compute_inherited_properties\<close> build for a
  property; the key \<open>inheritance_path\<close> is absent from a direct entry.
\<close>

record prop_entry =
  pe_id :: string
  pe_label :: pyval
  pe_property_type :: string
  pe_description :: pyval
  pe_range :: "string list"
  pe_required :: bool
  pe_source :: pyval
  pe_inheritance_path :: "pyval list option"

definition direct_entry :: "ontology_property \<Rightarrow> prop_entry" where
  "direct_entry prop =
     \<lparr>pe_id = prop_id prop,
      pe_label = prop_label prop,
      pe_property_type = property_type_value (prop_type prop),
      pe_description = prop_description prop,
      pe_range = prop_range prop,
      pe_required = False,
      pe_source = PStr ''direct'',
      pe_inheritance_path = None\<rparr>"

definition get_class_properties :: "graph_db \<Rightarrow> string \<Rightarrow> prop_entry list" where
  "get_class_properties g class_id =
     map direct_entry (filter (\<lambda>prop. class_id \<in> set (prop_domain prop)) (get_all_properties g))"

text \<open>
  The copies \<open>compute_inherited_properties\<close> makes: of a direct property of the parent,
  and of an entry returned by the recursive call on the parent.
\<close>

definition tag_parent :: "ontology_class \<Rightarrow> prop_entry \<Rightarrow> prop_entry" where
  "tag_parent parent_class prop =
     prop\<lparr>pe_source := cls_label parent_class,
          pe_inheritance_path := Some [cls_label parent_class]\<rparr>"

definition tag_grandparent :: "ontology_class \<Rightarrow> prop_entry \<Rightarrow> prop_entry" where
  "tag_grandparent parent_class prop =
     prop\<lparr>pe_inheritance_path :=
            Some (cls_label parent_class
                  # (case pe_inheritance_path prop of None \<Rightarrow> [] | Some path \<Rightarrow> path))\<rparr>"

fun is_not_found :: "error \<Rightarrow> bool" where
  "is_not_found (NodeNotFoundError m) = True"
| "is_not_found e = False"

text \<open>
  \<open>compute_inherited_properties\<close>. The set \<open>visited\<close> is one mutable object shared by all
  recursive calls, so the model returns it with the list. An exception other than
  \<open>NodeNotFoundError\<close> leaves every enclosing call. The recursion is bounded by the
  visited set; the first argument of the model is the recursion depth still allowed, and
  \<open>None\<close> says that it was exhausted.
\<close>

type_synonym inherit_result = "(error + (prop_entry list \<times> string set)) option"

definition inherit_step ::
  "(string \<Rightarrow> string set \<Rightarrow> inherit_result) \<Rightarrow> graph_db \<Rightarrow> string \<Rightarrow> inherit_result
     \<Rightarrow> inherit_result" where
  "inherit_step rec g parent_id acc =
     (case acc of
        None \<Rightarrow> None
      | Some (Inl e) \<Rightarrow> Some (Inl e)
      | Some (Inr (inherited, visited)) \<Rightarrow>
          if parent_id = owl_Thing then Some (Inr (inherited, visited))
          else (case get_class g parent_id of
                  Inl e \<Rightarrow> if is_not_found e then Some (Inr (inherited, visited)) else Some (Inl e)
                | Inr parent_class \<Rightarrow>
                    (let inherited1 = inherited
                           @ map (tag_parent parent_class) (get_class_properties g parent_id)
                     in case rec parent_id visited of
                          None \<Rightarrow> None
                        | Some (Inl e) \<Rightarrow> Some (Inl e)
                        | Some (Inr (grandparent_props, visited')) \<Rightarrow>
                            Some (Inr (inherited1
                                         @ map (tag_grandparent parent_class) grandparent_props,
                                       visited')))))"

definition inherit_body ::
  "(string \<Rightarrow> string set \<Rightarrow> inherit_result) \<Rightarrow> graph_db \<Rightarrow> string \<Rightarrow> string set
     \<Rightarrow> inherit_result" where
  "inherit_body rec g class_id visited =
     (if class_id \<in> visited then Some (Inr ([], visited))
      else (case get_class g class_id of
              Inl e \<Rightarrow> if is_not_found e then Some (Inr ([], insert class_id visited))
                       else Some (Inl e)
            | Inr class_obj \<Rightarrow>
                fold (inherit_step rec g) (parent_classes class_obj)
                  (Some (Inr ([], insert class_id visited)))))"

primrec compute_inherited_properties ::
  "nat \<Rightarrow> graph_db \<Rightarrow> string \<Rightarrow> string set \<Rightarrow> inherit_result" where
  "compute_inherited_properties 0 g class_id visited =
     inherit_body (\<lambda>p v. None) g class_id visited"
| "compute_inherited_properties (Suc n) g class_id visited =
     inherit_body (compute_inherited_properties n g) g class_id visited"

text \<open>The fields of the dictionary \<open>get_class_full\<close> returns.\<close>

record class_full =
  cf_class :: ontology_class
  direct_properties :: "prop_entry list"
  inherited_properties :: "prop_entry list"
  all_properties :: "prop_entry list"

definition get_class_full :: "nat \<Rightarrow> graph_db \<Rightarrow> string \<Rightarrow> (error + class_full) option" where
  "get_class_full n g class_id =
     (case get_class g class_id of
        Inl e \<Rightarrow> Some (Inl e)
      | Inr class_obj \<Rightarrow>
          (let direct = get_class_properties g class_id in
           case compute_inherited_properties n g class_id {} of
             None \<Rightarrow> None
           | Some (Inl e) \<Rightarrow> Some (Inl e)
           | Some (Inr (inherited, visited)) \<Rightarrow>
               Some (Inr \<lparr>cf_class = class_obj, direct_properties = direct,
                          inherited_properties = inherited,
                          all_properties = direct @ inherited\<rparr>)))"

definition missing_message :: "prop_entry \<Rightarrow> string" where
  "missing_message prop =
     ''Missing required property '' @ quoted (py_str (pe_label prop))
       @ (if pe_source prop \<noteq> PStr ''direct''
          then '' (inherited from '' @ py_str (pe_source prop) @ '')'' else [])"

text \<open>The loop of \<open>validate_instance_properties\<close> over the combined property list.\<close>

definition check_required :: "pydict \<Rightarrow> prop_entry list \<Rightarrow> string list" where
  "check_required properties all_props =
     map missing_message
       (filter (\<lambda>prop. pe_required prop
                  \<and> (properties (pe_id prop) = None \<or> properties (pe_id prop) = Some PNone))
          all_props)"

definition validate_instance_properties ::
  "nat \<Rightarrow> graph_db \<Rightarrow> string \<Rightarrow> pydict \<Rightarrow> (error + string list) option" where
  "validate_instance_properties n g class_id properties =
     (case get_class_full n g class_id of
        None \<Rightarrow> None
      | Some (Inl e) \<Rightarrow> Some (Inl e)
      | Some (Inr class_full) \<Rightarrow> Some (Inr (check_required properties (all_properties class_full))))"

subsection \<open>The traversal returns\<close>

lemma fold_inherit_None: "fold (inherit_step rec g) ps None = None"
  by (induction ps) (simp_all add: inherit_step_def)

lemma fold_inherit_error: "fold (inherit_step rec g) ps (Some (Inl e)) = Some (Inl e)"
  by (induction ps) (simp_all add: inherit_step_def)

lemma inherit_step_cases:
  "inherit_step rec g p (Some (Inr (inh, W))) =
     (if p = owl_Thing then Some (Inr (inh, W))
      else (case get_class g p of
              Inl e \<Rightarrow> if is_not_found e then Some (Inr (inh, W)) else Some (Inl e)
            | Inr pc \<Rightarrow>
                (case rec p W of
                   None \<Rightarrow> None
                 | Some (Inl e) \<Rightarrow> Some (Inl e)
                 | Some (Inr (gp, W')) \<Rightarrow>
                     Some (Inr (inh @ map (tag_parent pc) (get_class_properties g p)
                                  @ map (tag_grandparent pc) gp, W')))))"
  by (simp add: inherit_step_def Let_def split: sum.splits option.splits prod.splits)

lemma inherit_step_total:
  assumes "\<exists>r. rec p W = Some r \<and> (\<forall>res W'. r = Inr (res, W') \<longrightarrow> W \<subseteq> W')"
  shows "\<exists>r. inherit_step rec g p (Some (Inr (inh, W))) = Some r
            \<and> (\<forall>res W'. r = Inr (res, W') \<longrightarrow> W \<subseteq> W')"
proof -
  from assms obtain r0 where r0: "rec p W = Some r0"
    and gr: "\<forall>res W'. r0 = Inr (res, W') \<longrightarrow> W \<subseteq> W'" by blast
  show ?thesis
  proof (cases "p = owl_Thing")
    case True
    then show ?thesis by (simp add: inherit_step_cases)
  next
    case nt: False
    show ?thesis
    proof (cases "get_class g p")
      case (Inl e)
      with nt show ?thesis by (simp add: inherit_step_cases)
    next
      case (Inr pc)
      show ?thesis
      proof (cases r0)
        case (Inl e)
        with nt Inr r0 show ?thesis by (simp add: inherit_step_cases)
      next
        case (Inr b)
        obtain gp W' where b: "b = (gp, W')" by (cases b) auto
        with gr Inr have "W \<subseteq> W'" by simp
        with nt \<open>get_class g p = Inr pc\<close> r0 Inr b show ?thesis
          by (simp add: inherit_step_cases)
      qed
    qed
  qed
qed

lemma fold_inherit_total:
  assumes "\<And>p W. p \<in> set ps \<Longrightarrow> V1 \<subseteq> W
             \<Longrightarrow> \<exists>r. rec p W = Some r \<and> (\<forall>res W'. r = Inr (res, W') \<longrightarrow> W \<subseteq> W')"
    and "V1 \<subseteq> W"
  shows "\<exists>r. fold (inherit_step rec g) ps (Some (Inr (inh, W))) = Some r
            \<and> (\<forall>res W'. r = Inr (res, W') \<longrightarrow> W \<subseteq> W')"
  using assms
proof (induction ps arbitrary: inh W)
  case Nil
  then show ?case by simp
next
  case (Cons p ps)
  have "\<exists>r. rec p W = Some r \<and> (\<forall>res W'. r = Inr (res, W') \<longrightarrow> W \<subseteq> W')"
    using Cons.prems by simp
  from inherit_step_total[where rec = rec and p = p and W = W and g = g and inh = inh, OF this]
  obtain r1 where
    r1: "inherit_step rec g p (Some (Inr (inh, W))) = Some r1"
    and g1: "\<forall>res W'. r1 = Inr (res, W') \<longrightarrow> W \<subseteq> W'" by blast
  show ?case
  proof (cases r1)
    case (Inl e)
    with r1 show ?thesis by (simp add: fold_inherit_error)
  next
    case (Inr b)
    obtain inh1 W1 where b: "b = (inh1, W1)" by (cases b) auto
    with g1 Inr have sub: "W \<subseteq> W1" by simp
    with Cons.prems(2) have "V1 \<subseteq> W1" by simp
    from Cons.IH[OF _ this, of inh1] Cons.prems(1) obtain r where
      "fold (inherit_step rec g) ps (Some (Inr (inh1, W1))) = Some r"
      "\<forall>res W'. r = Inr (res, W') \<longrightarrow> W1 \<subseteq> W'" by auto
    with sub r1 Inr b show ?thesis by auto
  qed
qed

lemma compute_total:
  "card (set (get_all_nodes g) - V) \<le> n
     \<Longrightarrow> \<exists>r. compute_inherited_properties n g c V = Some r
            \<and> (\<forall>res V'. r = Inr (res, V') \<longrightarrow> V \<subseteq> V')"
proof (induction n arbitrary: c V)
  case 0
  then have sub: "set (get_all_nodes g) \<subseteq> V" by simp
  show ?case
  proof (cases "c \<in> V")
    case True
    then show ?thesis by (simp add: inherit_body_def)
  next
    case False
    show ?thesis
    proof (cases "get_class g c")
      case (Inl e)
      with False show ?thesis by (auto simp: inherit_body_def)
    next
      case (Inr cls)
      then have "c \<in> set (get_all_nodes g)"
        by (intro node_exists_listed get_class_node_exists)
      with sub False show ?thesis by auto
    qed
  qed
next
  case (Suc n)
  show ?case
  proof (cases "c \<in> V")
    case True
    then show ?thesis by (simp add: inherit_body_def)
  next
    case False
    show ?thesis
    proof (cases "get_class g c")
      case (Inl e)
      with False show ?thesis by (auto simp: inherit_body_def)
    next
      case (Inr cls)
      then have cU: "c \<in> set (get_all_nodes g)"
        by (intro node_exists_listed get_class_node_exists)
      have rec: "\<exists>r. compute_inherited_properties n g p W = Some r
                  \<and> (\<forall>res W'. r = Inr (res, W') \<longrightarrow> W \<subseteq> W')"
        if "insert c V \<subseteq> W" for p W
      proof (rule Suc.IH)
        have "set (get_all_nodes g) - W \<subseteq> set (get_all_nodes g) - V - {c}" using that by auto
        then have "card (set (get_all_nodes g) - W) \<le> card (set (get_all_nodes g) - V - {c})"
          by (intro card_mono) auto
        also have "\<dots> = card (set (get_all_nodes g) - V) - 1"
          using cU False by (simp add: card_Diff_singleton)
        finally show "card (set (get_all_nodes g) - W) \<le> n" using Suc.prems by simp
      qed
      have "\<exists>r. fold (inherit_step (compute_inherited_properties n g) g) (parent_classes cls)
                   (Some (Inr ([], insert c V))) = Some r
             \<and> (\<forall>res W'. r = Inr (res, W') \<longrightarrow> insert c V \<subseteq> W')"
        by (rule fold_inherit_total[where ?V1.0 = "insert c V"]) (use rec in auto)
      with False Inr show ?thesis by (auto simp: inherit_body_def)
    qed
  qed
qed

subsection \<open>No exception where every parent is a class\<close>

lemma inherit_step_no_error:
  assumes "\<And>r0. rec p W = Some r0 \<Longrightarrow> \<exists>res W'. r0 = Inr (res, W')"
    and "\<And>e. get_class g p = Inl e \<Longrightarrow> is_not_found e"
    and "inherit_step rec g p (Some (Inr (inh, W))) = Some r"
  shows "\<exists>res W'. r = Inr (res, W')"
proof (cases "p = owl_Thing")
  case True
  with assms(3) show ?thesis by (auto simp: inherit_step_cases)
next
  case nt: False
  show ?thesis
  proof (cases "get_class g p")
    case (Inl e)
    with assms(2) have "is_not_found e" by simp
    with nt Inl assms(3) show ?thesis by (auto simp: inherit_step_cases)
  next
    case (Inr pc)
    show ?thesis
    proof (cases "rec p W")
      case None
      with nt Inr assms(3) show ?thesis by (simp add: inherit_step_cases)
    next
      case (Some r0)
      with assms(1) obtain gp W' where "r0 = Inr (gp, W')" by blast
      with nt Inr Some assms(3) show ?thesis by (auto simp: inherit_step_cases)
    qed
  qed
qed

lemma fold_inherit_no_error:
  assumes "\<And>p W r0. p \<in> set ps \<Longrightarrow> rec p W = Some r0 \<Longrightarrow> \<exists>res W'. r0 = Inr (res, W')"
    and "\<And>p e. p \<in> set ps \<Longrightarrow> get_class g p = Inl e \<Longrightarrow> is_not_found e"
    and "fold (inherit_step rec g) ps (Some (Inr (inh, W))) = Some r"
  shows "\<exists>res W'. r = Inr (res, W')"
  using assms
proof (induction ps arbitrary: inh W)
  case Nil
  then show ?case by auto
next
  case (Cons p ps)
  show ?case
  proof (cases "inherit_step rec g p (Some (Inr (inh, W)))")
    case None
    with Cons.prems(3) show ?thesis by (simp add: fold_inherit_None)
  next
    case (Some r1)
    have "\<exists>res W'. r1 = Inr (res, W')"
    proof (rule inherit_step_no_error[OF _ _ Some])
      fix r0 assume "rec p W = Some r0"
      then show "\<exists>res W'. r0 = Inr (res, W')" using Cons.prems(1)[of p W r0] by simp
    next
      fix e assume "get_class g p = Inl e"
      then show "is_not_found e" using Cons.prems(2)[of p e] by simp
    qed
    then obtain inh1 W1 where r1: "r1 = Inr (inh1, W1)" by blast
    from Cons.prems(3) Some r1
    have "fold (inherit_step rec g) ps (Some (Inr (inh1, W1))) = Some r" by simp
    then show ?thesis
    proof (rule Cons.IH[rotated 2])
      fix q W0 r0 assume "q \<in> set ps" "rec q W0 = Some r0"
      then show "\<exists>res W'. r0 = Inr (res, W')" using Cons.prems(1)[of q W0 r0] by simp
    next
      fix q e assume "q \<in> set ps" "get_class g q = Inl e"
      then show "is_not_found e" using Cons.prems(2)[of q e] by simp
    qed
  qed
qed

text \<open>Every \<open>subClassOf\<close> edge of the store points at a class.\<close>

definition parents_are_classes :: "graph_db \<Rightarrow> bool" where
  "parents_are_classes g = (\<forall>(s, t)\<in>subclass_rel g. \<exists>c. get_class g t = Inr c)"

lemma parent_is_class:
  assumes "parents_are_classes g" and "get_class g c = Inr cls" and "p \<in> set (parent_classes cls)"
  shows "\<exists>pc. get_class g p = Inr pc"
proof -
  from assms(3) have "edge_has_label g c p SUBCLASS_RELATION"
    unfolding parent_classes_set[OF assms(2)] by simp
  then have "(c, p) \<in> subclass_rel g" by (simp add: subclass_rel_def)
  with assms(1) show ?thesis by (auto simp: parents_are_classes_def)
qed

lemma compute_no_error:
  assumes "parents_are_classes g"
  shows "(\<And>e. get_class g c = Inl e \<Longrightarrow> is_not_found e)
     \<Longrightarrow> compute_inherited_properties n g c V = Some r \<Longrightarrow> \<exists>res V'. r = Inr (res, V')"
proof (induction n arbitrary: c V r)
  case 0
  show ?case
  proof (cases "c \<in> V")
    case True
    with 0(2) show ?thesis by (auto simp: inherit_body_def)
  next
    case False
    show ?thesis
    proof (cases "get_class g c")
      case (Inl e)
      with 0(1) have "is_not_found e" by simp
      with False Inl 0(2) show ?thesis by (auto simp: inherit_body_def)
    next
      case (Inr cls)
      with False 0(2) have
        "fold (inherit_step (\<lambda>p v. None) g) (parent_classes cls) (Some (Inr ([], insert c V)))
           = Some r" by (simp add: inherit_body_def)
      then show ?thesis
      proof (rule fold_inherit_no_error[rotated 2])
        fix p e assume "p \<in> set (parent_classes cls)" "get_class g p = Inl e"
        with parent_is_class[OF assms Inr] show "is_not_found e" by fastforce
      qed simp
    qed
  qed
next
  case (Suc n)
  show ?case
  proof (cases "c \<in> V")
    case True
    with Suc.prems(2) show ?thesis by (auto simp: inherit_body_def)
  next
    case False
    show ?thesis
    proof (cases "get_class g c")
      case (Inl e)
      with Suc.prems(1) have "is_not_found e" by simp
      with False Inl Suc.prems(2) show ?thesis by (auto simp: inherit_body_def)
    next
      case (Inr cls)
      have ok: "is_not_found e" if "p \<in> set (parent_classes cls)" "get_class g p = Inl e" for p e
        using parent_is_class[OF assms Inr that(1)] that(2) by fastforce
      from False Inr Suc.prems(2) have
        "fold (inherit_step (compute_inherited_properties n g) g) (parent_classes cls)
           (Some (Inr ([], insert c V))) = Some r" by (simp add: inherit_body_def)
      then show ?thesis
      proof (rule fold_inherit_no_error[rotated 2])
        fix p W r0 assume "p \<in> set (parent_classes cls)"
          and "compute_inherited_properties n g p W = Some r0"
        then show "\<exists>res W'. r0 = Inr (res, W')"
          using Suc.IH[of p W r0] ok by blast
      next
        fix p e assume "p \<in> set (parent_classes cls)" "get_class g p = Inl e"
        then show "is_not_found e" by (rule ok)
      qed
    qed
  qed
qed

lemma compute_returns_list:
  assumes "parents_are_classes g" and "get_class g c = Inr cls"
    and "card (set (get_all_nodes g) - V) \<le> n"
  shows "\<exists>res V'. compute_inherited_properties n g c V = Some (Inr (res, V')) \<and> V \<subseteq> V'"
proof -
  from compute_total[OF assms(3), of c] obtain r where
    r: "compute_inherited_properties n g c V = Some r"
    and gr: "\<forall>res V'. r = Inr (res, V') \<longrightarrow> V \<subseteq> V'" by blast
  have "\<exists>res V'. r = Inr (res, V')"
    by (rule compute_no_error[OF assms(1) _ r]) (simp add: assms(2))
  with r gr show ?thesis by auto
qed

subsection \<open>Required properties\<close>

lemma get_class_properties_not_required:
  "e \<in> set (get_class_properties g c) \<Longrightarrow> \<not> pe_required e"
  by (auto simp: get_class_properties_def direct_entry_def)

lemma inherit_step_not_required:
  assumes "\<And>gp W'. rec p W = Some (Inr (gp, W')) \<Longrightarrow> \<forall>e\<in>set gp. \<not> pe_required e"
    and "\<forall>e\<in>set inh. \<not> pe_required e"
    and "inherit_step rec g p (Some (Inr (inh, W))) = Some (Inr (res, W1))"
  shows "\<forall>e\<in>set res. \<not> pe_required e"
proof (cases "p = owl_Thing")
  case True
  with assms(2,3) show ?thesis by (auto simp: inherit_step_cases)
next
  case nt: False
  show ?thesis
  proof (cases "get_class g p")
    case (Inl e)
    with nt assms(2,3) show ?thesis by (auto simp: inherit_step_cases split: if_splits)
  next
    case (Inr pc)
    show ?thesis
    proof (cases "rec p W")
      case None
      with nt Inr assms(3) show ?thesis by (simp add: inherit_step_cases)
    next
      case (Some r0)
      show ?thesis
      proof (cases r0)
        case (Inl e)
        with nt Inr Some assms(3) show ?thesis by (simp add: inherit_step_cases)
      next
        case r0: (Inr b)
        obtain gp W' where b: "b = (gp, W')" by (cases b) auto
        have gpn: "\<forall>e\<in>set gp. \<not> pe_required e" using assms(1) Some r0 b by simp
        have res: "res = inh @ map (tag_parent pc) (get_class_properties g p)
                      @ map (tag_grandparent pc) gp"
          using nt Inr Some r0 b assms(3) by (simp add: inherit_step_cases)
        show ?thesis
          unfolding res using assms(2) gpn get_class_properties_not_required[of _ g p]
          by (auto simp: tag_parent_def tag_grandparent_def)
      qed
    qed
  qed
qed

lemma fold_inherit_not_required:
  assumes "\<And>p W gp W'. p \<in> set ps \<Longrightarrow> rec p W = Some (Inr (gp, W'))
             \<Longrightarrow> \<forall>e\<in>set gp. \<not> pe_required e"
    and "\<forall>e\<in>set inh. \<not> pe_required e"
    and "fold (inherit_step rec g) ps (Some (Inr (inh, W))) = Some (Inr (res, W1))"
  shows "\<forall>e\<in>set res. \<not> pe_required e"
  using assms
proof (induction ps arbitrary: inh W)
  case Nil
  then show ?case by auto
next
  case (Cons p ps)
  show ?case
  proof (cases "inherit_step rec g p (Some (Inr (inh, W)))")
    case None
    with Cons.prems(3) show ?thesis by (simp add: fold_inherit_None)
  next
    case (Some r1)
    show ?thesis
    proof (cases r1)
      case (Inl e)
      with Some Cons.prems(3) show ?thesis by (simp add: fold_inherit_error)
    next
      case (Inr b)
      obtain inh1 W2 where b: "b = (inh1, W2)" by (cases b) auto
      have st: "inherit_step rec g p (Some (Inr (inh, W))) = Some (Inr (inh1, W2))"
        using Some Inr b by simp
      have i1: "\<forall>e\<in>set inh1. \<not> pe_required e"
      proof (rule inherit_step_not_required[OF _ Cons.prems(2) st])
        fix gp W' assume "rec p W = Some (Inr (gp, W'))"
        then show "\<forall>e\<in>set gp. \<not> pe_required e" using Cons.prems(1)[of p W gp W'] by simp
      qed
      have "fold (inherit_step rec g) ps (Some (Inr (inh1, W2))) = Some (Inr (res, W1))"
        using Cons.prems(3) st by simp
      then show ?thesis
      proof (rule Cons.IH[rotated 2])
        fix q W0 gp W' assume "q \<in> set ps" "rec q W0 = Some (Inr (gp, W'))"
        then show "\<forall>e\<in>set gp. \<not> pe_required e" using Cons.prems(1)[of q W0 gp W'] by simp
      qed (rule i1)
    qed
  qed
qed

lemma compute_not_required:
  "compute_inherited_properties n g c V = Some (Inr (res, V')) \<Longrightarrow> \<forall>e\<in>set res. \<not> pe_required e"
proof (induction n arbitrary: c V res V')
  case 0
  show ?case
  proof (cases "c \<in> V")
    case True
    with 0 show ?thesis by (auto simp: inherit_body_def)
  next
    case False
    show ?thesis
    proof (cases "get_class g c")
      case (Inl e)
      with False 0 show ?thesis by (auto simp: inherit_body_def split: if_splits)
    next
      case (Inr cls)
      with False 0 have
        "fold (inherit_step (\<lambda>p v. None) g) (parent_classes cls) (Some (Inr ([], insert c V)))
           = Some (Inr (res, V'))" by (simp add: inherit_body_def)
      then show ?thesis by (rule fold_inherit_not_required[rotated 2]) simp_all
    qed
  qed
next
  case (Suc n)
  show ?case
  proof (cases "c \<in> V")
    case True
    with Suc.prems show ?thesis by (auto simp: inherit_body_def)
  next
    case False
    show ?thesis
    proof (cases "get_class g c")
      case (Inl e)
      with False Suc.prems show ?thesis by (auto simp: inherit_body_def split: if_splits)
    next
      case (Inr cls)
      with False Suc.prems have
        "fold (inherit_step (compute_inherited_properties n g) g) (parent_classes cls)
           (Some (Inr ([], insert c V))) = Some (Inr (res, V'))" by (simp add: inherit_body_def)
      then show ?thesis
      proof (rule fold_inherit_not_required[rotated 2])
        fix p W gp W' assume "compute_inherited_properties n g p W = Some (Inr (gp, W'))"
        then show "\<forall>e\<in>set gp. \<not> pe_required e" by (rule Suc.IH)
      qed simp
    qed
  qed
qed

lemma check_required_none:
  "\<forall>e\<in>set ps. \<not> pe_required e \<Longrightarrow> check_required properties ps = []"
  by (simp add: check_required_def filter_empty_conv)

lemma validate_returns:
  assumes "length (gnodes g) \<le> n"
  shows "validate_instance_properties n g class_id properties \<noteq> None"
proof -
  have "card (set (get_all_nodes g) - {}) \<le> n"
    using assms card_length[of "get_all_nodes g"] by (simp add: get_all_nodes_def)
  from compute_total[OF this, of class_id] obtain r where
    "compute_inherited_properties n g class_id {} = Some r" by blast
  then show ?thesis
    by (cases "get_class g class_id"; cases r)
       (auto simp: validate_instance_properties_def get_class_full_def Let_def)
qed

lemma validate_no_errors:
  assumes "validate_instance_properties n g class_id properties = Some (Inr errors)"
  shows "errors = []"
proof -
  from assms obtain cf where cf: "get_class_full n g class_id = Some (Inr cf)"
    and er: "errors = check_required properties (all_properties cf)"
    by (auto simp: validate_instance_properties_def split: option.splits sum.splits)
  from cf obtain inh V' where
    inh: "compute_inherited_properties n g class_id {} = Some (Inr (inh, V'))"
    and ap: "all_properties cf = get_class_properties g class_id @ inh"
    by (auto simp: get_class_full_def Let_def split: option.splits sum.splits)
  have "\<forall>e\<in>set (all_properties cf). \<not> pe_required e"
    unfolding ap using compute_not_required[OF inh] get_class_properties_not_required[of _ g class_id]
    by auto
  then show ?thesis unfolding er by (rule check_required_none)
qed

text \<open>
  C1, as the code has it. The loop of \<open>validate_instance_properties\<close> reports, for every
  entry of the combined direct and inherited property list that is flagged required and
  whose id is absent or \<open>None\<close> in the supplied map, the message
  \<open>Missing required property '<label>'\<close>, followed for an inherited entry by
  \<open>(inherited from <source>)\<close>. But \<open>get_class_properties\<close> flags every entry
  \<open>required = False\<close> and the inherited entries are copies of such entries, so for every
  store, class and map the error list that \<open>validate_instance_properties\<close> returns is
  empty; the call returns once the recursion depth allowed is at least the number of
  nodes of the store.
\<close>

theorem validate_instance_properties_spec:
  "(prop \<in> set all_props \<and> pe_required prop
      \<and> (properties (pe_id prop) = None \<or> properties (pe_id prop) = Some PNone)
     \<longrightarrow> missing_message prop \<in> set (check_required properties all_props))
   \<and> (pe_source prop \<noteq> PStr ''direct''
     \<longrightarrow> missing_message prop
           = ''Missing required property '' @ quoted (py_str (pe_label prop))
               @ '' (inherited from '' @ py_str (pe_source prop) @ '')'')
   \<and> (validate_instance_properties n g class_id properties = Some (Inr errors) \<longrightarrow> errors = [])
   \<and> (length (gnodes g) \<le> n \<longrightarrow> validate_instance_properties n g class_id properties \<noteq> None)"
proof (intro conjI impI)
  assume "prop \<in> set all_props \<and> pe_required prop
      \<and> (properties (pe_id prop) = None \<or> properties (pe_id prop) = Some PNone)"
  then have "prop \<in> set (filter (\<lambda>prop. pe_required prop
                  \<and> (properties (pe_id prop) = None \<or> properties (pe_id prop) = Some PNone))
          all_props)" by simp
  then show "missing_message prop \<in> set (check_required properties all_props)"
    unfolding check_required_def set_map by (rule imageI)
next
  assume "pe_source prop \<noteq> PStr ''direct''"
  then show "missing_message prop
           = ''Missing required property '' @ quoted (py_str (pe_label prop))
               @ '' (inherited from '' @ py_str (pe_source prop) @ '')''"
    by (simp add: missing_message_def)
next
  assume "validate_instance_properties n g class_id properties = Some (Inr errors)"
  then show "errors = []" by (rule validate_no_errors)
next
  assume "length (gnodes g) \<le> n"
  then show "validate_instance_properties n g class_id properties \<noteq> None"
    by (rule validate_returns)
qed

subsection \<open>The Animal and Dog example\<close>

text \<open>
  The class \<open>Animal\<close>, the property \<open>name\<close> with domain \<open>Animal\<close>, created with the
  annotation \<open>required = true\<close> as the demonstration data of the adapter does, and the
  class \<open>Dog\<close> under \<open>Animal\<close>.
\<close>

definition required_name :: ontology_property where
  "required_name =
     (simple_property ''name'' [''Animal''] [''xsd:string''])
       \<lparr>annotations := [''required'' \<mapsto> PStr ''true'']\<rparr>"

definition zoo_store :: graph_db where
  "zoo_store =
     \<lparr>gnodes = [(owl_Thing, root_node), (''Animal'', class_node ''Animal''),
                (''name'', property_node required_name), (''Dog'', class_node ''Dog'')],
      gedges = [((''Animal'', owl_Thing), subclass_edge),
                ((''name'', ''Animal''),
                 \<lparr>elabel = DOMAIN_RELATION, eweight = default_weight\<rparr>),
                ((''Dog'', ''Animal''), subclass_edge)]\<rparr>"

lemma zoo_store_created:
  "run_operations new_service
     [CreateClass (simple_class ''Animal'' []), CreateProperty required_name,
      CreateClass (simple_class ''Dog'' [''Animal''])] = Inr zoo_store"
  by (simp add: create_defs create_property_def property_node_def simple_property_def
        required_name_def zoo_store_def)

lemmas inherit_defs =
  get_class_properties_def direct_entry_def inherit_body_def inherit_step_def tag_parent_def
  tag_grandparent_def property_node_def simple_property_def read_characteristics_def
  PropertyType_def or_empty_def default_weight_def check_required_def
  validate_instance_properties_def get_class_full_def

lemma zoo_store_dog:
  "map_option (map_sum (\<lambda>e. ())
       (\<lambda>cf. (map (\<lambda>e. (pe_id e, pe_source e, pe_inheritance_path e)) (inherited_properties cf),
              map pe_id (direct_properties cf))))
     (get_class_full 4 zoo_store ''Dog'')
     = Some (Inr ([(''name'', PStr ''Animal'', Some [PStr ''Animal''])], []))
   \<and> validate_instance_properties 4 zoo_store ''Dog'' Map.empty = Some (Inr [])"
  by (simp add: eval_nat_numeral zoo_store_def required_name_def eval_defs inherit_defs)

text \<open>
  C1 as stated fails. \<open>Dog\<close> inherits the property \<open>name\<close> from \<open>Animal\<close>, and the property
  was created as required, yet validating \<open>Dog\<close> against a map without \<open>name\<close> returns no
  error: \<open>create_property\<close> does not store the annotation and \<open>get_class_properties\<close>
  flags every property as not required.
\<close>

theorem validate_instance_properties_counterexample:
  "run_operations new_service
     [CreateClass (simple_class ''Animal'' []), CreateProperty required_name,
      CreateClass (simple_class ''Dog'' [''Animal''])] = Inr zoo_store
   \<and> annotations required_name ''required'' = Some (PStr ''true'')
   \<and> map_option (map_sum (\<lambda>e. ())
       (\<lambda>cf. (map (\<lambda>e. (pe_id e, pe_source e, pe_inheritance_path e)) (inherited_properties cf),
              map pe_id (direct_properties cf))))
     (get_class_full 4 zoo_store ''Dog'')
     = Some (Inr ([(''name'', PStr ''Animal'', Some [PStr ''Animal''])], []))
   \<and> validate_instance_properties 4 zoo_store ''Dog'' Map.empty = Some (Inr [])"
proof -
  have "annotations required_name ''required'' = Some (PStr ''true'')"
    by (simp add: required_name_def)
  with zoo_store_created zoo_store_dog show ?thesis by blast
qed

text \<open>An entry flagged required, as no entry built by the service is.\<close>

definition required_entry :: prop_entry where
  "required_entry =
     (tag_parent (simple_class ''Animal'' []) (direct_entry required_name))
       \<lparr>pe_required := True\<rparr>"

theorem validate_instance_properties_spec_witness:
  "required_entry \<in> set [required_entry] \<and> pe_required required_entry
   \<and> Map.empty (pe_id required_entry) = None
   \<and> missing_message required_entry \<in> set (check_required Map.empty [required_entry])
   \<and> pe_source required_entry \<noteq> PStr ''direct''
   \<and> missing_message required_entry
        = ''Missing required property '' @ quoted ''name'' @ '' (inherited from Animal)''
   \<and> validate_instance_properties 4 zoo_store ''Dog'' Map.empty = Some (Inr [])
   \<and> length (gnodes zoo_store) \<le> 4
   \<and> validate_instance_properties 4 zoo_store ''Dog'' Map.empty \<noteq> None"
proof -
  have h1: "required_entry \<in> set [required_entry] \<and> pe_required required_entry
      \<and> (Map.empty (pe_id required_entry) = None
          \<or> Map.empty (pe_id required_entry) = Some PNone)"
    by (simp add: required_entry_def)
  have h2: "pe_source required_entry \<noteq> PStr ''direct''"
    by (simp add: required_entry_def tag_parent_def simple_class_def)
  have h4: "length (gnodes zoo_store) \<le> 4" by (simp add: zoo_store_def)
  note spec = validate_instance_properties_spec[of required_entry "[required_entry]" Map.empty
      4 zoo_store "''Dog''" "[]"]
  from spec h1 have c1: "missing_message required_entry
      \<in> set (check_required Map.empty [required_entry])" by blast
  from spec h2 have "missing_message required_entry
           = ''Missing required property '' @ quoted (py_str (pe_label required_entry))
               @ '' (inherited from '' @ py_str (pe_source required_entry) @ '')''" by blast
  then have c2: "missing_message required_entry
        = ''Missing required property '' @ quoted ''name'' @ '' (inherited from Animal)''"
    by (simp add: required_entry_def tag_parent_def direct_entry_def required_name_def
          simple_property_def simple_class_def)
  from spec h4 have c4: "validate_instance_properties 4 zoo_store ''Dog'' Map.empty \<noteq> None"
    by blast
  have c3: "validate_instance_properties 4 zoo_store ''Dog'' Map.empty = Some (Inr [])"
    using zoo_store_dog by blast
  from h1 h2 h4 c1 c2 c3 c4 show ?thesis by simp
qed

end
